theory Spec2Isabelle
  imports Main "HOL-Library.Multiset" "HOL-Library.Product_Lexorder"
begin

section \<open>JSON values and JavaScript numbers\<close>

text \<open>
  A body returned by \<^verbatim>\<open>response.json()\<close> is an arbitrary JSON value. A property that
  is absent reads as \<^verbatim>\<open>undefined\<close>, which is \<open>None\<close> here.
\<close>

datatype json =
    JNull
  | JBool bool
  | JNum int
  | JStr string
  | JArr "json list"
  | JObj "(string \<times> json) list"

text \<open>\<^verbatim>\<open>v?.name\<close>: the property of an object, \<^verbatim>\<open>undefined\<close> on everything else.\<close>

fun getProp :: "json \<Rightarrow> string \<Rightarrow> json option" where
  "getProp (JObj kvs) name = map_of (rev kvs) name"
| "getProp _ name = None"

text \<open>JavaScript truthiness of a value that may be \<^verbatim>\<open>undefined\<close>.\<close>

fun truthy :: "json option \<Rightarrow> bool" where
  "truthy None = False"
| "truthy (Some JNull) = False"
| "truthy (Some (JBool b)) = b"
| "truthy (Some (JNum n)) = (n \<noteq> 0)"
| "truthy (Some (JStr s)) = (s \<noteq> [])"
| "truthy (Some (JArr xs)) = True"
| "truthy (Some (JObj kvs)) = True"

text \<open>
  A latency is a JavaScript number: a difference of two \<^verbatim>\<open>Date.now()\<close> readings
  (an integer number of milliseconds) or \<^verbatim>\<open>Infinity\<close>.
\<close>

datatype latency_ms = Ms int | Infinity

text \<open>The result of subtracting two such numbers.\<close>

datatype jsnum = Num int | PosInf | NegInf | NaN

fun latency_minus :: "latency_ms \<Rightarrow> latency_ms \<Rightarrow> jsnum" where
  "latency_minus (Ms a) (Ms b) = Num (a - b)"
| "latency_minus Infinity (Ms b) = PosInf"
| "latency_minus (Ms a) Infinity = NegInf"
| "latency_minus Infinity Infinity = NaN"

text \<open>\<^verbatim>\<open>a < b\<close> on latencies.\<close>

fun latency_lt :: "latency_ms \<Rightarrow> latency_ms \<Rightarrow> bool" where
  "latency_lt (Ms a) (Ms b) = (a < b)"
| "latency_lt (Ms a) Infinity = True"
| "latency_lt Infinity b = False"

instantiation latency_ms :: linorder
begin

definition less_latency_ms :: "latency_ms \<Rightarrow> latency_ms \<Rightarrow> bool" where
  "less_latency_ms a b = latency_lt a b"

definition less_eq_latency_ms :: "latency_ms \<Rightarrow> latency_ms \<Rightarrow> bool" where
  "less_eq_latency_ms a b = (a = b \<or> latency_lt a b)"

instance
proof
  fix x y z :: latency_ms
  show "(x < y) = (x \<le> y \<and> \<not> y \<le> x)"
    by (cases x; cases y) (auto simp: less_latency_ms_def less_eq_latency_ms_def)
  show "x \<le> x"
    by (simp add: less_eq_latency_ms_def)
  show "x \<le> y \<Longrightarrow> y \<le> z \<Longrightarrow> x \<le> z"
    by (cases x; cases y; cases z) (auto simp: less_eq_latency_ms_def)
  show "x \<le> y \<Longrightarrow> y \<le> x \<Longrightarrow> x = y"
    by (cases x; cases y) (auto simp: less_eq_latency_ms_def)
  show "x \<le> y \<or> y \<le> x"
    by (cases x; cases y) (auto simp: less_eq_latency_ms_def)
qed

end

section \<open>Probe results (latency-tester.ts)\<close>

datatype LatencyTestStatus =
    Ok
  | Syncing
  | Wrong_bytecode
  | Timeout
  | Http_error
  | Rpc_error
  | Network_error

text \<open>
  The optional \<^verbatim>\<open>error\<close> string of a result is free-form log text. It is kept
  structured: the constructor is the template of the source's message and the arguments
  are the values interpolated into it.
\<close>

datatype probe_note =
    Message string
  | GetCodeRpcError "json option"
  | SyncingRpcError "json option"
  | NotSynced "json option"
  | InvalidBytecodeType "json option"
  | BytecodeMismatch nat

record LatencyTestResult =
  url :: string
  latency :: latency_ms
  status :: LatencyTestStatus
  error :: "probe_note option"

text \<open>
  \<^verbatim>\<open>Record<string, LatencyTestResult>\<close>: an object whose properties are enumerated in
  insertion order, so an association list with distinct keys, in that order.
\<close>

type_synonym latency_map = "(string \<times> LatencyTestResult) list"

section \<open>Ranking (rpc-selector.ts)\<close>

definition ACCEPTABLE_STATUSES :: "LatencyTestStatus list" where
  "ACCEPTABLE_STATUSES = [Ok, Wrong_bytecode, Syncing]"

text \<open>\<^verbatim>\<open>Array.prototype.indexOf\<close>: the first position of the element, or -1.\<close>

fun indexOf :: "'a list \<Rightarrow> 'a \<Rightarrow> int" where
  "indexOf [] x = -1"
| "indexOf (y # ys) x =
     (if y = x then 0 else (let i = indexOf ys x in if i < 0 then -1 else i + 1))"

text \<open>The comparator passed to \<^verbatim>\<open>validResults.sort\<close>.\<close>

definition compareResults :: "LatencyTestResult \<Rightarrow> LatencyTestResult \<Rightarrow> jsnum" where
  "compareResults a b =
     (let statusA = indexOf ACCEPTABLE_STATUSES (status a);
          statusB = indexOf ACCEPTABLE_STATUSES (status b)
      in if statusA \<noteq> statusB then Num (statusA - statusB)
         else latency_minus (latency a) (latency b))"

text \<open>
  \<^verbatim>\<open>Array.prototype.sort\<close> with a comparator: \<open>a\<close> is placed after \<open>b\<close> when the
  comparator's value is greater than zero, a \<^verbatim>\<open>NaN\<close> counts as zero, and the sort is
  stable (ECMAScript 2019). The algorithm itself is the engine's choice; for a comparator
  that is a total preorder, as this one is, every stable sort returns the same list, and the
  model is the stable insertion sort.
\<close>

fun isPositive :: "jsnum \<Rightarrow> bool" where
  "isPositive (Num n) = (0 < n)"
| "isPositive PosInf = True"
| "isPositive NegInf = False"
| "isPositive NaN = False"

fun insertJs :: "('a \<Rightarrow> 'a \<Rightarrow> jsnum) \<Rightarrow> 'a \<Rightarrow> 'a list \<Rightarrow> 'a list" where
  "insertJs cmp x [] = [x]"
| "insertJs cmp x (y # ys) =
     (if isPositive (cmp x y) then y # insertJs cmp x ys else x # y # ys)"

fun sortJs :: "('a \<Rightarrow> 'a \<Rightarrow> jsnum) \<Rightarrow> 'a list \<Rightarrow> 'a list" where
  "sortJs cmp [] = []"
| "sortJs cmp (x # xs) = insertJs cmp x (sortJs cmp xs)"

text \<open>
  \<^verbatim>\<open>_rankResults\<close>: \<open>validResults\<close> after the sort, then the list of their URLs.
\<close>

definition validResults :: "latency_map \<Rightarrow> LatencyTestResult list" where
  "validResults m = filter (\<lambda>result. status result \<in> set ACCEPTABLE_STATUSES) (map snd m)"

definition rankedResults :: "latency_map \<Rightarrow> LatencyTestResult list" where
  "rankedResults m = sortJs compareResults (validResults m)"

definition rankResults :: "latency_map option \<Rightarrow> string list" where
  "rankResults latencyMap =
     (case latencyMap of
        None \<Rightarrow> []
      | Some m \<Rightarrow> map url (rankedResults m))"

text \<open>
  \<^verbatim>\<open>_findFastestInMap\<close>. The inner loop runs over the properties of the map in
  insertion order and keeps the first result of the wanted status with the smallest latency;
  the outer loop stops at the first status that has one.
\<close>

fun fastestForStatus ::
  "LatencyTestStatus \<Rightarrow> latency_map \<Rightarrow> LatencyTestResult option \<Rightarrow> LatencyTestResult option"
where
  "fastestForStatus s [] fastest = fastest"
| "fastestForStatus s ((u, result) # rest) fastest =
     fastestForStatus s rest
       (if status result = s then
          (case fastest of
             None \<Rightarrow> Some result
           | Some f \<Rightarrow> if latency_lt (latency result) (latency f) then Some result else fastest)
        else fastest)"

fun bestOfStatuses :: "LatencyTestStatus list \<Rightarrow> latency_map \<Rightarrow> LatencyTestResult option" where
  "bestOfStatuses [] m = None"
| "bestOfStatuses (s # ss) m =
     (case fastestForStatus s m None of
        Some f \<Rightarrow> Some f
      | None \<Rightarrow> bestOfStatuses ss m)"

definition findFastestInMap :: "latency_map option \<Rightarrow> LatencyTestResult option" where
  "findFastestInMap latencyMap =
     (case latencyMap of
        None \<Rightarrow> None
      | Some m \<Rightarrow> bestOfStatuses ACCEPTABLE_STATUSES m)"

section \<open>Network outcomes\<close>

text \<open>A value thrown by \<^verbatim>\<open>fetch\<close> or \<^verbatim>\<open>response.json()\<close>: its name and message.\<close>

datatype js_error = JsError (errName: string) (errMessage: string)

record http_response =
  httpStatus :: nat
  statusText :: string
  body :: "js_error + json"

text \<open>\<^verbatim>\<open>response.ok\<close>: the status is in the range 200 to 299.\<close>

definition response_ok :: "http_response \<Rightarrow> bool" where
  "response_ok response \<longleftrightarrow> 200 \<le> httpStatus response \<and> httpStatus response \<le> 299"

text \<open>
  What one \<^verbatim>\<open>fetch\<close> does: it rejects (with an \<^verbatim>\<open>AbortError\<close> when the timeout's
  controller aborted it) or resolves with a response.
\<close>

datatype fetch_result = FetchThrows js_error | FetchResolves http_response

fun showNat :: "nat \<Rightarrow> string" where
  "showNat n =
     (if n < 10 then [''0123456789'' ! n]
      else showNat (n div 10) @ [''0123456789'' ! (n mod 10)])"

declare showNat.simps [simp del]

text \<open>\<^verbatim>\<open>String.prototype.startsWith\<close>.\<close>

definition startsWith :: "string \<Rightarrow> string \<Rightarrow> bool" where
  "startsWith s p \<longleftrightarrow> take (length p) s = p"

section \<open>The prober (latency-tester.ts)\<close>

text \<open>\<^verbatim>\<open>_makeRpcCall\<close>: the parsed body, or the error thrown.\<close>

definition makeRpcCall :: "fetch_result \<Rightarrow> js_error + json" where
  "makeRpcCall fetched =
     (case fetched of
        FetchThrows e \<Rightarrow> Inl e
      | FetchResolves response \<Rightarrow>
          if \<not> response_ok response then
            Inl (JsError ''Error''
                   (''HTTP error '' @ showNat (httpStatus response) @ '' '' @ statusText response))
          else body response)"

text \<open>
  What the network does during the probe of one URL: the two calls, which of them settles
  first (\<^verbatim>\<open>Promise.all\<close> rejects with the first rejection), and the reading of
  \<^verbatim>\<open>Date.now()\<close> once both have resolved.
\<close>

record probe_io =
  getCodeFetch :: fetch_result
  syncingFetch :: fetch_result
  getCodeSettlesFirst :: bool
  endTime :: int

definition promiseAll :: "probe_io \<Rightarrow> js_error + (json \<times> json)" where
  "promiseAll io =
     (case makeRpcCall (getCodeFetch io) of
        Inr getCodeResponse \<Rightarrow>
          (case makeRpcCall (syncingFetch io) of
             Inr syncingResponse \<Rightarrow> Inr (getCodeResponse, syncingResponse)
           | Inl e \<Rightarrow> Inl e)
      | Inl e1 \<Rightarrow>
          (case makeRpcCall (syncingFetch io) of
             Inr syncingResponse \<Rightarrow> Inl e1
           | Inl e2 \<Rightarrow> Inl (if getCodeSettlesFirst io then e1 else e2)))"

fun commonPrefixLength :: "string \<Rightarrow> string \<Rightarrow> nat" where
  "commonPrefixLength (a # as) (b # bs) = (if a = b then Suc (commonPrefixLength as bs) else 0)"
| "commonPrefixLength _ _ = 0"

text \<open>
  \<^verbatim>\<open>testSingleRpc\<close>. The constant \<^verbatim>\<open>PERMIT2_BYTECODE_PREFIX\<close> is imported from a file
  of its own and is a parameter here; \<open>startTime\<close> is the reading of \<^verbatim>\<open>Date.now()\<close>
  at entry.
\<close>

definition testSingleRpc :: "string \<Rightarrow> string \<Rightarrow> int \<Rightarrow> probe_io \<Rightarrow> LatencyTestResult" where
  "testSingleRpc bytecodePrefix rpcUrl startTime io =
     (case promiseAll io of
        Inl err \<Rightarrow>
          \<lparr>url = rpcUrl, latency = Infinity,
           status = (if errName err = ''AbortError'' then Timeout
                     else if startsWith (errMessage err) ''HTTP error'' then Http_error
                     else Network_error),
           error = Some (Message (errMessage err))\<rparr>
      | Inr (getCodeResponse, syncingResponse) \<Rightarrow>
          (let measured = Ms (endTime io - startTime) in
           if truthy (getProp getCodeResponse ''error'') then
             \<lparr>url = rpcUrl, latency = Infinity, status = Rpc_error,
              error = Some (GetCodeRpcError (getProp getCodeResponse ''error''))\<rparr>
           else if truthy (getProp syncingResponse ''error'') then
             \<lparr>url = rpcUrl, latency = Infinity, status = Rpc_error,
              error = Some (SyncingRpcError (getProp syncingResponse ''error''))\<rparr>
           else if getProp syncingResponse ''result'' \<noteq> Some (JBool False) then
             \<lparr>url = rpcUrl, latency = measured, status = Syncing,
              error = Some (NotSynced (getProp syncingResponse ''result''))\<rparr>
           else
             (case getProp getCodeResponse ''result'' of
                Some (JStr code) \<Rightarrow>
                  if \<not> startsWith code bytecodePrefix then
                    \<lparr>url = rpcUrl, latency = measured, status = Wrong_bytecode,
                     error = Some (BytecodeMismatch (commonPrefixLength bytecodePrefix code))\<rparr>
                  else
                    \<lparr>url = rpcUrl, latency = measured, status = Ok, error = None\<rparr>
              | other \<Rightarrow>
                  \<lparr>url = rpcUrl, latency = measured, status = Wrong_bytecode,
                   error = Some (InvalidBytecodeType other)\<rparr>)))"

text \<open>
  An element of the array of \<^verbatim>\<open>Promise.allSettled\<close>: the value of a fulfilled promise,
  or the \<^verbatim>\<open>message\<close> of the reason of a rejected one, when the reason has one.
\<close>

datatype 'a settled = Fulfilled 'a | Rejected "string option"

text \<open>\<^verbatim>\<open>resultMap[url] = value\<close>: an existing property keeps its place.\<close>

fun assign :: "latency_map \<Rightarrow> string \<Rightarrow> LatencyTestResult \<Rightarrow> latency_map" where
  "assign [] k v = [(k, v)]"
| "assign ((k', v') # rest) k v =
     (if k' = k then (k, v) # rest else (k', v') # assign rest k v)"

text \<open>The entry that the \<^verbatim>\<open>forEach\<close> callback of \<^verbatim>\<open>testRpcUrls\<close> stores for one URL.\<close>

definition settledEntry :: "string \<Rightarrow> LatencyTestResult settled \<Rightarrow> LatencyTestResult" where
  "settledEntry rpcUrl outcome =
     (case outcome of
        Fulfilled v \<Rightarrow> v
      | Rejected reason \<Rightarrow>
          \<lparr>url = rpcUrl, latency = Infinity, status = Network_error,
           error = Some (Message (case reason of
                                    None \<Rightarrow> ''Unknown rejection''
                                  | Some msg \<Rightarrow> if msg = [] then ''Unknown rejection'' else msg))\<rparr>)"

fun collectResults :: "latency_map \<Rightarrow> (string \<times> LatencyTestResult settled) list \<Rightarrow> latency_map" where
  "collectResults resultMap [] = resultMap"
| "collectResults resultMap ((rpcUrl, outcome) # rest) =
     collectResults (assign resultMap rpcUrl (settledEntry rpcUrl outcome)) rest"

text \<open>
  \<^verbatim>\<open>testRpcUrls\<close>. The argument \<open>probe i u\<close> is how the promise
  \<^verbatim>\<open>this.testSingleRpc(u)\<close> created for position \<open>i\<close> settles.
\<close>

definition testRpcUrls ::
  "(nat \<Rightarrow> string \<Rightarrow> LatencyTestResult settled) \<Rightarrow> string list \<Rightarrow> latency_map"
where
  "testRpcUrls probe urls =
     (if urls = [] then []
      else collectResults [] (map (\<lambda>(i, u). (u, probe i u)) (enumerate 0 urls)))"

text \<open>
  One probe as the environment runs it: \<^verbatim>\<open>testSingleRpc\<close> on what the network does,
  or an exception that escapes it (nothing in its body throws; the injected logger may).
\<close>

datatype probe_run = Runs probe_io | Escapes "string option"

definition runProbe :: "string \<Rightarrow> int \<Rightarrow> string \<Rightarrow> probe_run \<Rightarrow> LatencyTestResult settled" where
  "runProbe bytecodePrefix startTime rpcUrl run =
     (case run of
        Runs io \<Rightarrow> Fulfilled (testSingleRpc bytecodePrefix rpcUrl startTime io)
      | Escapes reason \<Rightarrow> Rejected reason)"

section \<open>The cache (cache-manager.ts)\<close>

record ChainCache =
  fastestRpc :: "string option"
  latencyMap :: latency_map
  lastTested :: int

type_synonym CacheData = "nat \<Rightarrow> ChainCache option"

text \<open>
  The fields of \<^verbatim>\<open>CacheManager\<close>, and the Deno KV store behind it: the value stored
  under the cache key, and whether opening, reading and writing the store succeed.
\<close>

record CacheManager =
  cache :: CacheData
  cacheLoaded :: bool
  cacheTtlMs :: int
  disabled :: bool
  kvStored :: "CacheData option"
  kvAvailable :: bool

definition loadCache :: "CacheManager \<Rightarrow> CacheManager" where
  "loadCache cm =
     (if disabled cm \<or> cacheLoaded cm then cm
      else cm\<lparr>cache := (if kvAvailable cm
                         then (case kvStored cm of Some stored \<Rightarrow> stored | None \<Rightarrow> Map.empty)
                         else Map.empty),
              cacheLoaded := True\<rparr>)"

definition saveCache :: "CacheManager \<Rightarrow> CacheManager" where
  "saveCache cm =
     (if disabled cm \<or> \<not> cacheLoaded cm then cm
      else if kvAvailable cm then cm\<lparr>kvStored := Some (cache cm)\<rparr>
      else cm)"

definition getRawChainCache :: "CacheManager \<Rightarrow> nat \<Rightarrow> ChainCache option \<times> CacheManager" where
  "getRawChainCache cm chainId = (let cm' = loadCache cm in (cache cm' chainId, cm'))"

text \<open>\<open>now\<close> is the reading of \<^verbatim>\<open>Date.now()\<close>.\<close>

definition getChainCache :: "CacheManager \<Rightarrow> nat \<Rightarrow> int \<Rightarrow> ChainCache option \<times> CacheManager" where
  "getChainCache cm chainId now =
     (if disabled cm then (None, cm)
      else (case getRawChainCache cm chainId of
              (Some chainCache, cm') \<Rightarrow>
                if now - lastTested chainCache < cacheTtlMs cm' then (Some chainCache, cm')
                else (None, cm')
            | (None, cm') \<Rightarrow> (None, cm')))"

definition updateChainCache ::
  "CacheManager \<Rightarrow> nat \<Rightarrow> latency_map \<Rightarrow> string option \<Rightarrow> int \<Rightarrow> CacheManager"
where
  "updateChainCache cm chainId newMap newFastest now =
     (if disabled cm then cm
      else (let cm' = loadCache cm
            in saveCache (cm'\<lparr>cache := (cache cm')(chainId \<mapsto>
                   \<lparr>fastestRpc = newFastest, latencyMap = newMap, lastTested = now\<rparr>)\<rparr>)))"

definition getFastestRpc :: "CacheManager \<Rightarrow> nat \<Rightarrow> int \<Rightarrow> string option \<times> CacheManager" where
  "getFastestRpc cm chainId now =
     (case getChainCache cm chainId now of
        (Some chainCache, cm') \<Rightarrow> (fastestRpc chainCache, cm')
      | (None, cm') \<Rightarrow> (None, cm'))"

definition getLatencyMap :: "CacheManager \<Rightarrow> nat \<Rightarrow> latency_map option \<times> CacheManager" where
  "getLatencyMap cm chainId =
     (case getRawChainCache cm chainId of
        (Some chainCache, cm') \<Rightarrow> (Some (latencyMap chainCache), cm')
      | (None, cm') \<Rightarrow> (None, cm'))"

section \<open>The whitelist (chainlist-data-source.ts)\<close>

text \<open>\<^verbatim>\<open>whitelistData\<close> after construction, and \<^verbatim>\<open>getRpcUrls\<close> (the first entry of the chain).\<close>

type_synonym whitelist = "(nat \<times> string list) list"

fun getRpcUrls :: "whitelist \<Rightarrow> nat \<Rightarrow> string list" where
  "getRpcUrls [] chainId = []"
| "getRpcUrls ((c, rpcUrls) # rest) chainId =
     (if c = chainId then rpcUrls else getRpcUrls rest chainId)"

section \<open>The selector (rpc-selector.ts)\<close>

text \<open>
  The state of one \<^verbatim>\<open>Permit2RpcManager\<close> and of the module-level map
  \<^verbatim>\<open>ongoingLatencyTests\<close>, which holds for a chain the map its pending probe resolves to.
  \<open>probeRuns\<close> is a history variable: the argument of every call of \<^verbatim>\<open>testRpcUrls\<close> so far.
\<close>

record manager_state =
  dataSource :: whitelist
  cacheManager :: CacheManager
  ongoingLatencyTests :: "nat \<Rightarrow> latency_map option"
  rpcIndexMap :: "nat \<Rightarrow> nat option"
  requestTimeoutMs :: int
  permit2BytecodePrefix :: string
  probeRuns :: "string list list"

text \<open>
  What the outside world does during one call: the readings of \<^verbatim>\<open>Date.now()\<close> (at the
  freshness check, at the start of the probes, at the cache update), how the probe of the URL
  at each position of the whitelist goes, and how the \<^verbatim>\<open>fetch\<close> of \<^verbatim>\<open>send\<close> to the URL
  at each index of the ranked list goes.
\<close>

record call_env =
  readTime :: int
  probeStartTime :: int
  probeNet :: "nat \<Rightarrow> string \<Rightarrow> probe_run"
  writeTime :: int
  requestNet :: "nat \<Rightarrow> string \<Rightarrow> fetch_result"

text \<open>\<^verbatim>\<open>this.latencyTester.testRpcUrls(rpcUrls)\<close> in the environment \<open>env\<close>.\<close>

definition latencyTest :: "call_env \<Rightarrow> manager_state \<Rightarrow> string list \<Rightarrow> latency_map" where
  "latencyTest env st rpcUrls =
     testRpcUrls
       (\<lambda>i u. runProbe (permit2BytecodePrefix st) (probeStartTime env) u (probeNet env i u))
       rpcUrls"

text \<open>The condition of the \<^verbatim>\<open>if\<close> of \<^verbatim>\<open>getRankedRpcList\<close>; an empty string is falsy.\<close>

definition cacheInvalid :: "latency_map option \<Rightarrow> string option \<Rightarrow> bool" where
  "cacheInvalid cachedMap fastestCachedRpc =
     (case cachedMap of
        None \<Rightarrow> True
      | Some m \<Rightarrow>
          (case fastestCachedRpc of
             None \<Rightarrow> True
           | Some f \<Rightarrow>
               f = [] \<or>
               (case map_of m f of
                  None \<Rightarrow> True
                | Some r \<Rightarrow> status r \<notin> set ACCEPTABLE_STATUSES)))"

text \<open>
  \<^verbatim>\<open>getRankedRpcList\<close>. Neither \<^verbatim>\<open>testRpcUrls\<close> nor \<^verbatim>\<open>updateChainCache\<close> throws, so
  the \<^verbatim>\<open>catch\<close> branch has no case here; the \<^verbatim>\<open>finally\<close> block deletes the chain's
  entry of \<^verbatim>\<open>ongoingLatencyTests\<close>.
\<close>

definition getRankedRpcList :: "call_env \<Rightarrow> manager_state \<Rightarrow> nat \<Rightarrow> string list \<times> manager_state" where
  "getRankedRpcList env st chainId =
     (case getLatencyMap (cacheManager st) chainId of
        (cachedMap, cm1) \<Rightarrow>
     (case getFastestRpc cm1 chainId (readTime env) of
        (fastestCachedRpc, cm2) \<Rightarrow>
       if cacheInvalid cachedMap fastestCachedRpc then
         (case ongoingLatencyTests st chainId of
            Some awaited \<Rightarrow> (rankResults (Some awaited), st\<lparr>cacheManager := cm2\<rparr>)
          | None \<Rightarrow>
              (let rpcUrls = getRpcUrls (dataSource st) chainId in
               if rpcUrls = [] then ([], st\<lparr>cacheManager := cm2\<rparr>)
               else
                 (let tested = latencyTest env st rpcUrls;
                      newFastest = findFastestInMap (Some tested);
                      cm3 = updateChainCache cm2 chainId tested (map_option url newFastest)
                              (writeTime env)
                  in (rankResults (Some tested),
                      st\<lparr>cacheManager := cm3,
                         ongoingLatencyTests := (ongoingLatencyTests st)(chainId := None),
                         probeRuns := probeRuns st @ [rpcUrls]\<rparr>))))
       else (rankResults cachedMap, st\<lparr>cacheManager := cm2\<rparr>)))"

section \<open>The dispatcher (permit2-rpc-manager.ts)\<close>

text \<open>
  The errors \<^verbatim>\<open>executeRpcCall\<close> throws: the three it creates (the constructor is the
  template of the message, the arguments are the values interpolated into it) and whatever
  \<^verbatim>\<open>fetch\<close> or \<^verbatim>\<open>response.json()\<close> threw.
\<close>

datatype call_error =
    HttpError nat string
  | RpcError "json option"
  | RequestTimedOut int
  | Thrown js_error

definition rethrow :: "int \<Rightarrow> js_error \<Rightarrow> call_error" where
  "rethrow timeoutMs e = (if errName e = ''AbortError'' then RequestTimedOut timeoutMs else Thrown e)"

text \<open>
  \<^verbatim>\<open>executeRpcCall\<close>. The value returned is \<^verbatim>\<open>responseData.result\<close>, \<open>None\<close> when the
  body has no such property (the source then logs a warning and returns). Reading a property
  of a \<^verbatim>\<open>null\<close> body throws a \<^verbatim>\<open>TypeError\<close>.
\<close>

definition executeRpcCall :: "int \<Rightarrow> fetch_result \<Rightarrow> call_error + json option" where
  "executeRpcCall timeoutMs fetched =
     (case fetched of
        FetchThrows e \<Rightarrow> Inl (rethrow timeoutMs e)
      | FetchResolves response \<Rightarrow>
          if \<not> response_ok response then
            Inl (HttpError (httpStatus response) (statusText response))
          else
            (case body response of
               Inl e \<Rightarrow> Inl (rethrow timeoutMs e)
             | Inr JNull \<Rightarrow>
                 Inl (Thrown (JsError ''TypeError''
                        ''Cannot read properties of null''))
             | Inr responseData \<Rightarrow>
                 if truthy (getProp responseData ''error'') then
                   Inl (RpcError (getProp responseData ''error''))
                 else Inr (getProp responseData ''result'')))"

text \<open>
  The errors \<^verbatim>\<open>send\<close> throws, with the chain and, for the second, \<^verbatim>\<open>lastError\<close>
  (\<^verbatim>\<open>null\<close> when no attempt was made).
\<close>

datatype send_error =
    NoEndpoints nat
  | AllEndpointsFailed nat "call_error option"

text \<open>
  The trace of one \<^verbatim>\<open>send\<close>: the start index it logs, and the list index and URL of every
  call of \<^verbatim>\<open>executeRpcCall\<close>, in order.
\<close>

record send_trace =
  startedAt :: "nat option"
  attempted :: "(nat \<times> string) list"

text \<open>
  The \<^verbatim>\<open>for\<close> loop of \<^verbatim>\<open>send\<close> over the remaining values of \<open>i\<close>; \<open>exec j u\<close> is the
  outcome of \<^verbatim>\<open>executeRpcCall\<close> on the URL \<open>u\<close> at list index \<open>j\<close>. A falsy URL is skipped.
\<close>

fun attempts ::
  "(nat \<Rightarrow> string \<Rightarrow> call_error + json option) \<Rightarrow> string list \<Rightarrow> nat \<Rightarrow> nat list \<Rightarrow>
   call_error option \<Rightarrow> (nat \<times> string) list \<Rightarrow>
   (call_error option + json option) \<times> (nat \<times> string) list"
where
  "attempts exec rankedRpcList startIndex [] lastError tried = (Inl lastError, tried)"
| "attempts exec rankedRpcList startIndex (i # rest) lastError tried =
     (let listIndex = (startIndex + i) mod length rankedRpcList;
          rpcUrl = rankedRpcList ! listIndex
      in if rpcUrl = [] then attempts exec rankedRpcList startIndex rest lastError tried
         else
           (case exec listIndex rpcUrl of
              Inr result \<Rightarrow> (Inr result, tried @ [(listIndex, rpcUrl)])
            | Inl e \<Rightarrow>
                attempts exec rankedRpcList startIndex rest (Some e)
                  (tried @ [(listIndex, rpcUrl)])))"

text \<open>The current round-robin index of a chain: \<^verbatim>\<open>rpcIndexMap.get(chainId) || 0\<close>.\<close>

definition currentIndexOf :: "(nat \<Rightarrow> nat option) \<Rightarrow> nat \<Rightarrow> nat" where
  "currentIndexOf indexMap chainId = (case indexMap chainId of None \<Rightarrow> 0 | Some i \<Rightarrow> i)"

text \<open>\<^verbatim>\<open>send\<close> from the ranked list on.\<close>

definition dispatch ::
  "(nat \<Rightarrow> string \<Rightarrow> call_error + json option) \<Rightarrow> (nat \<Rightarrow> nat option) \<Rightarrow> nat \<Rightarrow> string list \<Rightarrow>
   (send_error + json option) \<times> (nat \<Rightarrow> nat option) \<times> send_trace"
where
  "dispatch exec indexMap chainId rankedRpcList =
     (if length rankedRpcList = 0 then
        (Inl (NoEndpoints chainId), indexMap, \<lparr>startedAt = None, attempted = []\<rparr>)
      else
        (let currentIndex = currentIndexOf indexMap chainId;
             startIndex = currentIndex mod length rankedRpcList;
             indexMap' = indexMap(chainId \<mapsto> (currentIndex + 1) mod length rankedRpcList)
         in (case attempts exec rankedRpcList startIndex [0..<length rankedRpcList] None [] of
               (Inr result, tried) \<Rightarrow>
                 (Inr result, indexMap', \<lparr>startedAt = Some startIndex, attempted = tried\<rparr>)
             | (Inl lastError, tried) \<Rightarrow>
                 (Inl (AllEndpointsFailed chainId lastError), indexMap',
                  \<lparr>startedAt = Some startIndex, attempted = tried\<rparr>))))"

definition send ::
  "call_env \<Rightarrow> manager_state \<Rightarrow> nat \<Rightarrow> (send_error + json option) \<times> manager_state \<times> send_trace"
where
  "send env st chainId =
     (case getRankedRpcList env st chainId of
        (rankedRpcList, st1) \<Rightarrow>
          (case dispatch (\<lambda>i u. executeRpcCall (requestTimeoutMs st1) (requestNet env i u))
                  (rpcIndexMap st1) chainId rankedRpcList of
             (outcome, indexMap', trace) \<Rightarrow> (outcome, st1\<lparr>rpcIndexMap := indexMap'\<rparr>, trace)))"

text \<open>Sends on one chain one after the other, each over the same ranked list.\<close>

fun backToBack ::
  "(nat \<Rightarrow> string \<Rightarrow> call_error + json option) list \<Rightarrow> (nat \<Rightarrow> nat option) \<Rightarrow> nat \<Rightarrow> string list \<Rightarrow>
   send_trace list"
where
  "backToBack [] indexMap chainId rankedRpcList = []"
| "backToBack (exec # rest) indexMap chainId rankedRpcList =
     (case dispatch exec indexMap chainId rankedRpcList of
        (outcome, indexMap', trace) \<Rightarrow> trace # backToBack rest indexMap' chainId rankedRpcList)"

section \<open>Notions used in the statements and proofs\<close>

text \<open>The key the comparator orders by: the index of the status, then the latency.\<close>

definition rankKey :: "LatencyTestResult \<Rightarrow> int \<times> latency_ms" where
  "rankKey r = (indexOf ACCEPTABLE_STATUSES (status r), latency r)"

text \<open>\<open>r\<close> is the first element of \<open>xs\<close> among those with the least key.\<close>

definition firstMin :: "('a \<Rightarrow> 'k::linorder) \<Rightarrow> 'a list \<Rightarrow> 'a \<Rightarrow> bool" where
  "firstMin f xs r \<longleftrightarrow>
     r \<in> set xs \<and> (\<forall>y\<in>set xs. f r \<le> f y) \<and> hd (filter (\<lambda>y. f y = f r) xs) = r"

text \<open>
  Whether \<^verbatim>\<open>getRankedRpcList\<close> takes the branch that tests again: its two cache reads,
  then the condition of its \<^verbatim>\<open>if\<close>.
\<close>

definition needsProbe :: "call_env \<Rightarrow> manager_state \<Rightarrow> nat \<Rightarrow> bool" where
  "needsProbe env st chainId =
     (case getLatencyMap (cacheManager st) chainId of
        (cachedMap, cm1) \<Rightarrow>
          (case getFastestRpc cm1 chainId (readTime env) of
             (fastestCachedRpc, cm2) \<Rightarrow> cacheInvalid cachedMap fastestCachedRpc))"

text \<open>The entries \<^verbatim>\<open>testRpcUrls\<close> stores, in the order of the input, before any overwrite.\<close>

definition entriesOf ::
  "(nat \<Rightarrow> string \<Rightarrow> LatencyTestResult settled) \<Rightarrow> string list \<Rightarrow> latency_map"
where
  "entriesOf probe urls = map (\<lambda>(i, u). (u, settledEntry u (probe i u))) (enumerate 0 urls)"

text \<open>Concrete inputs on which the theorems below are instantiated.\<close>

definition exampleMap :: latency_map where
  "exampleMap =
     [(''https://B'', \<lparr>url = ''https://B'', latency = Ms 30, status = Syncing, error = None\<rparr>),
      (''https://C'', \<lparr>url = ''https://C'', latency = Infinity, status = Timeout, error = None\<rparr>),
      (''https://A'', \<lparr>url = ''https://A'', latency = Ms 100, status = Ok, error = None\<rparr>),
      (''https://D'', \<lparr>url = ''https://D'', latency = Ms 100, status = Ok, error = None\<rparr>)]"




definition exampleExec :: "nat \<Rightarrow> string \<Rightarrow> call_error + json option" where
  "exampleExec j u =
     (if u = ''https://A'' then Inl (HttpError 500 ''Internal Server Error'')
      else Inr (Some (JStr ''0x64'')))"

definition exampleManager :: CacheManager where
  "exampleManager =
     \<lparr>cache = Map.empty, cacheLoaded = False, cacheTtlMs = 3600000, disabled = False,
      kvStored = None, kvAvailable = True\<rparr>"

definition exampleState :: manager_state where
  "exampleState =
     \<lparr>dataSource = [(100, [''https://A'', ''https://B'', ''https://C''])],
      cacheManager = exampleManager,
      ongoingLatencyTests = Map.empty,
      rpcIndexMap = Map.empty,
      requestTimeoutMs = 10000,
      permit2BytecodePrefix = ''0x60'',
      probeRuns = []\<rparr>"

definition exampleAbort :: fetch_result where
  "exampleAbort = FetchThrows (JsError ''AbortError'' ''The signal has been aborted'')"

definition exampleTimeoutEnv :: "int \<Rightarrow> call_env" where
  "exampleTimeoutEnv t =
     \<lparr>readTime = t, probeStartTime = t,
      probeNet = (\<lambda>i u. Runs \<lparr>getCodeFetch = exampleAbort, syncingFetch = exampleAbort,
                              getCodeSettlesFirst = True, endTime = t + 5000\<rparr>),
      writeTime = t + 5000,
      requestNet = (\<lambda>j u. exampleAbort)\<rparr>"

definition exampleTimeoutMap :: latency_map where
  "exampleTimeoutMap =
     map (\<lambda>u. (u, \<lparr>url = u, latency = Infinity, status = Timeout,
                    error = Some (Message ''The signal has been aborted'')\<rparr>))
       [''https://A'', ''https://B'', ''https://C'']"

definition exampleDisabledState :: manager_state where
  "exampleDisabledState = exampleState\<lparr>cacheManager := exampleManager\<lparr>disabled := True\<rparr>\<rparr>"

definition examplePersistedState :: manager_state where
  "examplePersistedState =
     exampleState\<lparr>cacheManager := exampleManager\<lparr>kvStored := Some
       [100 \<mapsto> \<lparr>fastestRpc = Some ''https://X'',
                  latencyMap = [(''https://X'',
                     \<lparr>url = ''https://X'', latency = Ms 20, status = Ok, error = None\<rparr>)],
                  lastTested = 0\<rparr>]\<rparr>\<rparr>"

definition exampleProbe :: "nat \<Rightarrow> string \<Rightarrow> LatencyTestResult settled" where
  "exampleProbe i u =
     (if u = ''https://A'' then Rejected (Some ''boom'')
      else Fulfilled \<lparr>url = u, latency = Ms 40, status = Ok, error = None\<rparr>)"


section \<open>The ranking is the stable sort by status, then latency\<close>

lemma isPositive_latency_minus: "isPositive (latency_minus a b) \<longleftrightarrow> b < a"
  by (cases a; cases b) (auto simp: less_latency_ms_def)

lemma isPositive_compareResults:
  "isPositive (compareResults a b) \<longleftrightarrow> \<not> rankKey a \<le> rankKey b"
  by (auto simp: compareResults_def rankKey_def Let_def isPositive_latency_minus
        less_eq_prod_def not_le not_less)

lemma insertJs_insort: "insertJs compareResults x ys = insort_key rankKey x ys"
  by (induction ys) (simp_all add: isPositive_compareResults)

lemma sortJs_sort_key: "sortJs compareResults xs = sort_key rankKey xs"
  by (induction xs) (simp_all add: insertJs_insort)

lemma indexOf_accept_inj:
  "s \<in> set ACCEPTABLE_STATUSES \<Longrightarrow>
   indexOf ACCEPTABLE_STATUSES s = indexOf ACCEPTABLE_STATUSES t \<Longrightarrow> s = t"
  by (cases s; cases t) (simp_all add: ACCEPTABLE_STATUSES_def)

lemma set_rankedResults: "set (rankedResults m) = set (validResults m)"
  by (simp add: rankedResults_def sortJs_sort_key)

text \<open>
  Claim C4. For every probe map, the ranked list is the list of the URLs of exactly the
  results whose status is acceptable (as a multiset: each of them once); of two adjacent
  elements the first has the strictly smaller index of its status in the acceptable statuses,
  or both have the same status and the first has the latency that is not larger; and results
  that tie on status and latency keep the order they have in the probe map.
\<close>

theorem rankResults_sorted_stable:
  "rankResults (Some m) = map url (rankedResults m)
   \<and> mset (rankedResults m)
       = mset (filter (\<lambda>r. status r \<in> set ACCEPTABLE_STATUSES) (map snd m))
   \<and> (\<forall>i. Suc i < length (rankedResults m) \<longrightarrow>
        (let a = rankedResults m ! i; b = rankedResults m ! Suc i
         in indexOf ACCEPTABLE_STATUSES (status a) < indexOf ACCEPTABLE_STATUSES (status b)
            \<or> (status a = status b \<and> latency a \<le> latency b)))
   \<and> (\<forall>s l. filter (\<lambda>r. status r = s \<and> latency r = l) (rankedResults m)
            = filter (\<lambda>r. status r = s \<and> latency r = l) (validResults m))"
proof (intro conjI allI impI)
  show "rankResults (Some m) = map url (rankedResults m)"
    by (simp add: rankResults_def)
  show "mset (rankedResults m)
      = mset (filter (\<lambda>r. status r \<in> set ACCEPTABLE_STATUSES) (map snd m))"
    by (simp add: rankedResults_def sortJs_sort_key validResults_def)
next
  fix i assume i: "Suc i < length (rankedResults m)"
  let ?vs = "rankedResults m"
  have "sorted (map rankKey ?vs)"
    by (simp add: rankedResults_def sortJs_sort_key)
  then have "rankKey (?vs ! i) \<le> rankKey (?vs ! Suc i)"
    using i by (simp add: sorted_iff_nth_Suc)
  moreover have "?vs ! i \<in> set (validResults m)"
    using i set_rankedResults[of m] by (metis Suc_lessD nth_mem)
  then have "status (?vs ! i) \<in> set ACCEPTABLE_STATUSES"
    by (simp add: validResults_def)
  ultimately show "let a = ?vs ! i; b = ?vs ! Suc i
         in indexOf ACCEPTABLE_STATUSES (status a) < indexOf ACCEPTABLE_STATUSES (status b)
            \<or> (status a = status b \<and> latency a \<le> latency b)"
    by (auto simp: Let_def rankKey_def less_eq_prod_def dest: indexOf_accept_inj)
next
  fix s :: LatencyTestStatus and l :: latency_ms
  let ?k = "(indexOf ACCEPTABLE_STATUSES s, l)"
  have "filter (\<lambda>r. rankKey r = ?k) (rankedResults m)
      = filter (\<lambda>r. rankKey r = ?k) (validResults m)"
    by (simp add: rankedResults_def sortJs_sort_key sort_key_stable)
  then have "filter (\<lambda>r. status r = s) (filter (\<lambda>r. rankKey r = ?k) (rankedResults m))
      = filter (\<lambda>r. status r = s) (filter (\<lambda>r. rankKey r = ?k) (validResults m))"
    by simp
  moreover have "\<And>r. (status r = s \<and> rankKey r = ?k) = (status r = s \<and> latency r = l)"
    by (auto simp: rankKey_def)
  ultimately show "filter (\<lambda>r. status r = s \<and> latency r = l) (rankedResults m)
            = filter (\<lambda>r. status r = s \<and> latency r = l) (validResults m)"
    by (simp add: conj_commute)
qed

theorem rankResults_sorted_stable_witness:
  "Suc 0 < length (rankedResults exampleMap)
   \<and> rankResults (Some exampleMap) = [''https://A'', ''https://D'', ''https://B'']
   \<and> (let a = rankedResults exampleMap ! 0; b = rankedResults exampleMap ! Suc 0
      in indexOf ACCEPTABLE_STATUSES (status a) < indexOf ACCEPTABLE_STATUSES (status b)
         \<or> (status a = status b \<and> latency a \<le> latency b))"
  using rankResults_sorted_stable [of exampleMap]
  by (simp add: exampleMap_def rankResults_def rankedResults_def validResults_def
        compareResults_def ACCEPTABLE_STATUSES_def)

section \<open>The fastest result is the head of the ranking\<close>

lemma firstMin_unique:
  assumes "firstMin f xs r" and "firstMin f xs r'"
  shows "r = r'"
proof -
  from assms have "f r \<le> f r'" and "f r' \<le> f r"
    by (auto simp: firstMin_def)
  then have "f r = f r'" by simp
  with assms show ?thesis by (simp add: firstMin_def)
qed

lemma firstMin_hd_sort_key:
  assumes "xs \<noteq> []"
  shows "firstMin f xs (hd (sort_key f xs))"
proof -
  obtain h t where ht: "sort_key f xs = h # t"
    using assms by (cases "sort_key f xs") (auto dest: arg_cong[where f=length])
  have "sorted (map f (h # t))"
    using sorted_sort_key[of f xs] ht by simp
  then have le: "\<forall>y\<in>set (h # t). f h \<le> f y" by auto
  have s: "set (h # t) = set xs"
    using set_sort[of f xs] ht by simp
  have "filter (\<lambda>y. f y = f h) xs = h # filter (\<lambda>y. f y = f h) t"
    using sort_key_stable[of f "f h" xs] ht by simp
  then have "hd (filter (\<lambda>y. f y = f h) xs) = h" by simp
  with le s ht show ?thesis by (auto simp: firstMin_def)
qed

lemma fastestForStatus_Some:
  "status b = s \<Longrightarrow>
   \<exists>r. fastestForStatus s m (Some b) = Some r
      \<and> firstMin latency (b # filter (\<lambda>x. status x = s) (map snd m)) r"
proof (induction m arbitrary: b)
  case Nil
  then show ?case by (simp add: firstMin_def)
next
  case (Cons p m)
  obtain u x where p: "p = (u, x)" by (cases p)
  show ?case
  proof (cases "status x = s")
    case False
    with Cons p show ?thesis by simp
  next
    case True
    let ?rest = "filter (\<lambda>x. status x = s) (map snd m)"
    show ?thesis
    proof (cases "latency x < latency b")
      case lt: True
      from Cons.IH[OF True] obtain r where r: "fastestForStatus s m (Some x) = Some r"
        "firstMin latency (x # ?rest) r" by blast
      from r(2) have "latency r \<le> latency x" by (simp add: firstMin_def)
      with lt have "latency r < latency b" by simp
      with r(2) have "firstMin latency (b # x # ?rest) r"
        by (auto simp: firstMin_def)
      with r(1) lt True p show ?thesis by (simp add: less_latency_ms_def)
    next
      case ge: False
      from Cons.IH[OF Cons.prems] obtain r where r: "fastestForStatus s m (Some b) = Some r"
        "firstMin latency (b # ?rest) r" by blast
      from r(2) have rb: "latency r \<le> latency b" by (simp add: firstMin_def)
      with ge have rx: "latency r \<le> latency x" by simp
      have "firstMin latency (b # x # ?rest) r"
      proof (cases "latency b = latency r")
        case True
        with r(2) rx show ?thesis by (auto simp: firstMin_def)
      next
        case False
        with rb ge have "latency x \<noteq> latency r" by auto
        with r(2) rx False show ?thesis by (auto simp: firstMin_def)
      qed
      with r(1) ge True p show ?thesis by (simp add: less_latency_ms_def)
    qed
  qed
qed

lemma fastestForStatus_None:
  "(filter (\<lambda>x. status x = s) (map snd m) = [] \<longrightarrow> fastestForStatus s m None = None)
   \<and> (filter (\<lambda>x. status x = s) (map snd m) \<noteq> [] \<longrightarrow>
        (\<exists>r. fastestForStatus s m None = Some r
           \<and> firstMin latency (filter (\<lambda>x. status x = s) (map snd m)) r))"
proof (induction m)
  case Nil
  then show ?case by simp
next
  case (Cons p m)
  obtain u x where p: "p = (u, x)" by (cases p)
  show ?case
  proof (cases "status x = s")
    case True
    with fastestForStatus_Some[OF True, of m] p show ?thesis by auto
  next
    case False
    with Cons p show ?thesis by auto
  qed
qed

lemma filter_rankKey_valid:
  assumes "s \<in> set ACCEPTABLE_STATUSES" "status r = s"
  shows "filter (\<lambda>y. rankKey y = rankKey r) (validResults m)
       = filter (\<lambda>y. latency y = latency r) (filter (\<lambda>x. status x = s) (map snd m))"
proof -
  have "\<And>y. (rankKey y = rankKey r \<and> status y \<in> set ACCEPTABLE_STATUSES)
          = (latency y = latency r \<and> status y = s)"
    using assms by (auto simp: rankKey_def dest: indexOf_accept_inj)
  then show ?thesis
    by (simp add: validResults_def conj_commute)
qed

lemma firstMin_lift:
  assumes s: "s \<in> set ACCEPTABLE_STATUSES"
    and lower: "\<forall>y\<in>set (validResults m).
                  indexOf ACCEPTABLE_STATUSES s \<le> indexOf ACCEPTABLE_STATUSES (status y)"
    and fm: "firstMin latency (filter (\<lambda>x. status x = s) (map snd m)) r"
  shows "firstMin rankKey (validResults m) r"
proof -
  from fm have rs: "status r = s" and rin: "r \<in> set (map snd m)"
    by (auto simp: firstMin_def)
  have "r \<in> set (validResults m)"
    using rs rin s by (auto simp: validResults_def)
  moreover have "\<forall>y\<in>set (validResults m). rankKey r \<le> rankKey y"
  proof
    fix y assume y: "y \<in> set (validResults m)"
    with lower
    have le: "indexOf ACCEPTABLE_STATUSES s \<le> indexOf ACCEPTABLE_STATUSES (status y)"
      by blast
    show "rankKey r \<le> rankKey y"
    proof (cases "indexOf ACCEPTABLE_STATUSES s = indexOf ACCEPTABLE_STATUSES (status y)")
      case True
      with s have "status y = s" by (auto dest: indexOf_accept_inj)
      with y fm have "latency r \<le> latency y"
        by (auto simp: firstMin_def validResults_def)
      with True rs show ?thesis by (simp add: rankKey_def less_eq_prod_def)
    next
      case False
      with le rs show ?thesis by (simp add: rankKey_def less_eq_prod_def)
    qed
  qed
  moreover have "hd (filter (\<lambda>y. rankKey y = rankKey r) (validResults m)) = r"
    using fm filter_rankKey_valid[OF s rs, of m] by (simp add: firstMin_def)
  ultimately show ?thesis by (simp add: firstMin_def)
qed

lemma bestOfStatuses_accept:
  "(validResults m = [] \<longrightarrow> bestOfStatuses ACCEPTABLE_STATUSES m = None)
   \<and> (validResults m \<noteq> [] \<longrightarrow>
        (\<exists>r. bestOfStatuses ACCEPTABLE_STATUSES m = Some r
           \<and> firstMin rankKey (validResults m) r))"
proof -
  let ?F = "\<lambda>s. filter (\<lambda>x. status x = s) (map snd m)"
  have mem: "\<And>y. y \<in> set (validResults m) \<longleftrightarrow>
               y \<in> set (?F Ok) \<or> y \<in> set (?F Wrong_bytecode) \<or> y \<in> set (?F Syncing)"
    by (auto simp: validResults_def ACCEPTABLE_STATUSES_def)
  show ?thesis
  proof (cases "?F Ok = []")
    case okN: False
    then obtain r where r: "fastestForStatus Ok m None = Some r" "firstMin latency (?F Ok) r"
      using fastestForStatus_None[of Ok m] by blast
    have "firstMin rankKey (validResults m) r"
      by (rule firstMin_lift[OF _ _ r(2)]) (auto simp: ACCEPTABLE_STATUSES_def validResults_def)
    moreover have "validResults m \<noteq> []"
      using okN mem by (metis hd_in_set empty_iff empty_set)
    ultimately show ?thesis using r(1) by (simp add: ACCEPTABLE_STATUSES_def)
  next
    case okE: True
    then have f1: "fastestForStatus Ok m None = None"
      using fastestForStatus_None[of Ok m] by simp
    show ?thesis
    proof (cases "?F Wrong_bytecode = []")
      case wbN: False
      then obtain r where r: "fastestForStatus Wrong_bytecode m None = Some r"
          "firstMin latency (?F Wrong_bytecode) r"
        using fastestForStatus_None[of Wrong_bytecode m] by blast
      have "\<forall>y\<in>set (validResults m). status y \<noteq> Ok"
        using okE by (auto simp: filter_empty_conv validResults_def)
      then have "firstMin rankKey (validResults m) r"
        by (intro firstMin_lift[OF _ _ r(2)])
          (auto simp: ACCEPTABLE_STATUSES_def validResults_def)
      moreover have "validResults m \<noteq> []"
        using wbN mem by (metis hd_in_set empty_iff empty_set)
      ultimately show ?thesis using r(1) f1 by (simp add: ACCEPTABLE_STATUSES_def)
    next
      case wbE: True
      then have f2: "fastestForStatus Wrong_bytecode m None = None"
        using fastestForStatus_None[of Wrong_bytecode m] by simp
      show ?thesis
      proof (cases "?F Syncing = []")
        case syN: False
        then obtain r where r: "fastestForStatus Syncing m None = Some r"
            "firstMin latency (?F Syncing) r"
          using fastestForStatus_None[of Syncing m] by blast
        have "\<forall>y\<in>set (validResults m). status y \<noteq> Ok \<and> status y \<noteq> Wrong_bytecode"
          using okE wbE by (auto simp: filter_empty_conv validResults_def)
        then have "firstMin rankKey (validResults m) r"
          by (intro firstMin_lift[OF _ _ r(2)])
            (auto simp: ACCEPTABLE_STATUSES_def validResults_def)
        moreover have "validResults m \<noteq> []"
          using syN mem by (metis hd_in_set empty_iff empty_set)
        ultimately show ?thesis using r(1) f1 f2 by (simp add: ACCEPTABLE_STATUSES_def)
      next
        case syE: True
        then have f3: "fastestForStatus Syncing m None = None"
          using fastestForStatus_None[of Syncing m] by simp
        have "validResults m = []"
          using okE wbE syE mem by (metis hd_in_set empty_iff empty_set)
        with f1 f2 f3 show ?thesis by (simp add: ACCEPTABLE_STATUSES_def)
      qed
    qed
  qed
qed

text \<open>
  Claim C5. For every probe map (and for no map at all), the URL of the result that
  \<^verbatim>\<open>_findFastestInMap\<close> returns, which is what the selector passes to the cache as the
  fastest URL, is the first element of the list that \<^verbatim>\<open>_rankResults\<close> returns for the same
  map, and it is \<^verbatim>\<open>null\<close> exactly when that list is empty.
\<close>

theorem findFastestInMap_is_head_of_rankResults:
  "map_option url (findFastestInMap probeMap)
     = (case rankResults probeMap of [] \<Rightarrow> None | first # rest \<Rightarrow> Some first)"
proof (cases probeMap)
  case None
  then show ?thesis by (simp add: findFastestInMap_def rankResults_def)
next
  case (Some m)
  show ?thesis
  proof (cases "validResults m = []")
    case True
    with bestOfStatuses_accept[of m] Some show ?thesis
      by (simp add: findFastestInMap_def rankResults_def rankedResults_def)
  next
    case False
    then obtain r where r: "bestOfStatuses ACCEPTABLE_STATUSES m = Some r"
        "firstMin rankKey (validResults m) r"
      using bestOfStatuses_accept[of m] by blast
    have h: "firstMin rankKey (validResults m) (hd (rankedResults m))"
      using firstMin_hd_sort_key[OF False, of rankKey]
      by (simp add: rankedResults_def sortJs_sort_key)
    have eq: "hd (rankedResults m) = r"
      by (rule firstMin_unique[OF h r(2)])
    have "rankedResults m \<noteq> []"
      using False by (simp add: rankedResults_def sortJs_sort_key) (metis length_0_conv length_sort)
    then obtain t where "rankedResults m = r # t"
      using eq by (cases "rankedResults m") auto
    with r(1) Some show ?thesis by (simp add: findFastestInMap_def rankResults_def)
  qed
qed

theorem findFastestInMap_is_head_of_rankResults_witness:
  "map_option url (findFastestInMap (Some exampleMap)) = Some ''https://A''
   \<and> rankResults (Some exampleMap) = [''https://A'', ''https://D'', ''https://B'']"
  using findFastestInMap_is_head_of_rankResults [of "Some exampleMap"]
  by (simp add: exampleMap_def rankResults_def rankedResults_def validResults_def
        compareResults_def ACCEPTABLE_STATUSES_def)

section \<open>The latency of a probe result\<close>




section \<open>A response with neither result nor error\<close>

text \<open>
  Claim C2, as the code has it. When the response has a 2xx status and its JSON body is
  not \<^verbatim>\<open>null\<close> and has neither a \<^verbatim>\<open>result\<close> nor an \<^verbatim>\<open>error\<close> property,
  \<^verbatim>\<open>executeRpcCall\<close> does not fail: it returns \<^verbatim>\<open>undefined\<close>, the absent result.
\<close>

theorem executeRpcCall_missing_result_returns:
  "response_ok response \<Longrightarrow> body response = Inr responseData \<Longrightarrow> responseData \<noteq> JNull \<Longrightarrow>
   getProp responseData ''result'' = None \<Longrightarrow> getProp responseData ''error'' = None \<Longrightarrow>
   executeRpcCall timeoutMs (FetchResolves response) = Inr None"
  by (cases responseData) (simp_all add: executeRpcCall_def)

theorem executeRpcCall_missing_result_returns_witness:
  "response_ok \<lparr>httpStatus = 200, statusText = ''OK'', body = Inr (JObj [(''id'', JNum 1)])\<rparr>
   \<and> getProp (JObj [(''id'', JNum 1)]) ''result'' = None
   \<and> getProp (JObj [(''id'', JNum 1)]) ''error'' = None
   \<and> executeRpcCall 10000
        (FetchResolves \<lparr>httpStatus = 200, statusText = ''OK'', body = Inr (JObj [(''id'', JNum 1)])\<rparr>)
       = Inr None"
  using executeRpcCall_missing_result_returns
    [of "\<lparr>httpStatus = 200, statusText = ''OK'', body = Inr (JObj [(''id'', JNum 1)])\<rparr>"
        "JObj [(''id'', JNum 1)]" 10000]
  by (simp add: response_ok_def)

text \<open>
  The claim as the specification states it fails on the body \<^verbatim>\<open>{}\<close> with status 200:
  the call returns and is no error.
\<close>

theorem executeRpcCall_malformed_counterexample:
  "response_ok \<lparr>httpStatus = 200, statusText = ''OK'', body = Inr (JObj [])\<rparr>
   \<and> getProp (JObj []) ''result'' = None
   \<and> getProp (JObj []) ''error'' = None
   \<and> \<not> isl (executeRpcCall 10000
              (FetchResolves \<lparr>httpStatus = 200, statusText = ''OK'', body = Inr (JObj [])\<rparr>))"
  by (simp add: executeRpcCall_def response_ok_def)

section \<open>Round robin\<close>

lemma dispatch_nonempty:
  assumes "rankedRpcList \<noteq> []"
  shows "fst (snd (dispatch exec indexMap chainId rankedRpcList))
           = indexMap(chainId \<mapsto> (currentIndexOf indexMap chainId + 1) mod length rankedRpcList)"
    and "startedAt (snd (snd (dispatch exec indexMap chainId rankedRpcList)))
           = Some (currentIndexOf indexMap chainId mod length rankedRpcList)"
  using assms by (auto simp: dispatch_def Let_def split: prod.splits sum.splits)

lemma backToBack_starts:
  assumes "rankedRpcList \<noteq> []"
  shows "map startedAt (backToBack execs indexMap chainId rankedRpcList)
       = map (\<lambda>k. Some ((currentIndexOf indexMap chainId + k) mod length rankedRpcList))
           [0..<length execs]"
proof (induction execs arbitrary: indexMap)
  case Nil
  then show ?case by simp
next
  case (Cons exec execs)
  let ?n = "length rankedRpcList"
  let ?i = "currentIndexOf indexMap chainId"
  obtain outcome indexMap' trace
    where d: "dispatch exec indexMap chainId rankedRpcList = (outcome, indexMap', trace)"
    by (cases "dispatch exec indexMap chainId rankedRpcList") auto
  from dispatch_nonempty[OF assms, of exec indexMap chainId] d
  have im: "indexMap' = indexMap(chainId \<mapsto> (?i + 1) mod ?n)"
    and tr: "startedAt trace = Some (?i mod ?n)"
    by simp_all
  have cur: "currentIndexOf indexMap' chainId = (?i + 1) mod ?n"
    by (simp add: im currentIndexOf_def)
  have "map startedAt (backToBack execs indexMap' chainId rankedRpcList)
      = map (\<lambda>k. Some (((?i + 1) mod ?n + k) mod ?n)) [0..<length execs]"
    by (simp only: Cons.IH[of indexMap'] cur)
  also have "\<dots> = map (\<lambda>k. Some ((?i + Suc k) mod ?n)) [0..<length execs]"
    by (simp add: mod_add_left_eq)
  finally have rest: "map startedAt (backToBack execs indexMap' chainId rankedRpcList)
      = map ((\<lambda>k. Some ((?i + k) mod ?n)) \<circ> Suc) [0..<length execs]"
    by (simp add: comp_def)
  have "[0..<length (exec # execs)] = 0 # map Suc [0..<length execs]"
    by (simp add: upt_conv_Cons map_Suc_upt del: upt_Suc)
  then show ?case using d tr rest by (simp del: upt_Suc)
qed

text \<open>
  Claim C6. A send over a non-empty ranked list of length \<open>n\<close> reads the chain's index \<open>i\<close>
  (0 when there is none), starts at \<open>i mod n\<close> and stores \<open>(i + 1) mod n\<close>, whatever the
  attempts do; so sends on the chain one after the other over the same list start at
  \<open>i\<close>, \<open>i + 1\<close>, \<open>i + 2\<close>, ... modulo \<open>n\<close>.
\<close>

theorem send_round_robin:
  assumes "rankedRpcList \<noteq> []"
  shows "fst (snd (dispatch exec indexMap chainId rankedRpcList))
           = indexMap(chainId \<mapsto> (currentIndexOf indexMap chainId + 1) mod length rankedRpcList)
       \<and> startedAt (snd (snd (dispatch exec indexMap chainId rankedRpcList)))
           = Some (currentIndexOf indexMap chainId mod length rankedRpcList)
       \<and> map startedAt (backToBack execs indexMap chainId rankedRpcList)
           = map (\<lambda>k. Some ((currentIndexOf indexMap chainId + k) mod length rankedRpcList))
               [0..<length execs]"
  using dispatch_nonempty[OF assms] backToBack_starts[OF assms] by blast

theorem send_round_robin_witness:
  "[''https://A'', ''https://B''] \<noteq> []
   \<and> map startedAt
       (backToBack [exampleExec, exampleExec, exampleExec] Map.empty 100
          [''https://A'', ''https://B''])
     = [Some 0, Some 1, Some 0]"
  using send_round_robin
    [of "[''https://A'', ''https://B'']" exampleExec Map.empty 100
        "[exampleExec, exampleExec, exampleExec]"]
  by (simp add: currentIndexOf_def upt_conv_Cons del: upt_Suc)

section \<open>The prober keeps one entry per URL\<close>

lemma map_of_assign: "map_of (assign m k v) = (map_of m)(k \<mapsto> v)"
  by (induction m k v rule: assign.induct) (auto simp: fun_eq_iff)

lemma keys_assign: "fst ` set (assign m k v) = insert k (fst ` set m)"
  by (induction m k v rule: assign.induct) auto

lemma distinct_assign: "distinct (map fst m) \<Longrightarrow> distinct (map fst (assign m k v))"
  by (induction m k v rule: assign.induct) (auto simp: keys_assign)

lemma map_of_collectResults:
  "map_of (collectResults m kvs)
     = map_of m ++ map_of (rev (map (\<lambda>(u, outcome). (u, settledEntry u outcome)) kvs))"
  by (induction m kvs rule: collectResults.induct) (auto simp: map_of_assign fun_eq_iff map_add_def split: option.splits)

lemma keys_collectResults: "fst ` set (collectResults m kvs) = fst ` set m \<union> fst ` set kvs"
  by (induction m kvs rule: collectResults.induct) (auto simp: keys_assign)

lemma distinct_collectResults:
  "distinct (map fst m) \<Longrightarrow> distinct (map fst (collectResults m kvs))"
  by (induction m kvs rule: collectResults.induct) (auto simp: distinct_assign)

lemma map_of_testRpcUrls: "map_of (testRpcUrls probe urls) = map_of (rev (entriesOf probe urls))"
  by (simp add: testRpcUrls_def entriesOf_def map_of_collectResults comp_def case_prod_unfold)

lemma last_wins:
  assumes "i < length zs" "fst (zs ! i) = k" "\<forall>j<length zs. i < j \<longrightarrow> fst (zs ! j) \<noteq> k"
  shows "map_of (rev zs) k = Some (snd (zs ! i))"
proof -
  have zs: "zs = take i zs @ zs ! i # drop (Suc i) zs"
    using assms(1) by (rule id_take_nth_drop)
  have "k \<notin> fst ` set (drop (Suc i) zs)"
  proof
    assume "k \<in> fst ` set (drop (Suc i) zs)"
    then obtain p where "p \<in> set (drop (Suc i) zs)" "fst p = k" by auto
    then obtain j where "j < length (drop (Suc i) zs)" "drop (Suc i) zs ! j = p"
      by (auto simp: in_set_conv_nth)
    then have "Suc i + j < length zs" "zs ! (Suc i + j) = p" by auto
    with assms(3) \<open>fst p = k\<close> show False by auto
  qed
  then have none: "map_of (rev (drop (Suc i) zs)) k = None"
    by (simp add: map_of_eq_None_iff)
  have "map_of (rev zs) k = map_of (rev (drop (Suc i) zs) @ zs ! i # rev (take i zs)) k"
    by (subst zs) simp
  also have "\<dots> = Some (snd (zs ! i))"
    using none assms(2) by (cases "zs ! i") (simp add: map_add_def)
  finally show ?thesis .
qed

lemma upd_other:
  assumes "i < length zs" "fst (zs ! i) = k'" "fst y = k'" "u \<noteq> k'"
  shows "map_of (rev (zs[i := y])) u = map_of (rev zs) u"
proof -
  have zs: "zs = take i zs @ zs ! i # drop (Suc i) zs"
    using assms(1) by (rule id_take_nth_drop)
  have upd: "zs[i := y] = take i zs @ y # drop (Suc i) zs"
    using assms(1) by (rule upd_conv_take_nth_drop)
  have "map_of (rev zs) u = map_of (rev (drop (Suc i) zs) @ zs ! i # rev (take i zs)) u"
    by (subst zs) simp
  also have "\<dots> = map_of (rev (drop (Suc i) zs) @ y # rev (take i zs)) u"
    using assms(2-4) by (cases "zs ! i"; cases y) (auto simp: map_add_def split: option.splits)
  finally show ?thesis by (simp add: upd)
qed

lemma entriesOf_nth:
  "i < length urls \<Longrightarrow> entriesOf probe urls ! i = (urls ! i, settledEntry (urls ! i) (probe i (urls ! i)))"
  by (simp add: entriesOf_def nth_enumerate_eq)

lemma entriesOf_upd:
  "i < length urls \<Longrightarrow>
   entriesOf (probe(i := q)) urls = (entriesOf probe urls)[i := (urls ! i, settledEntry (urls ! i) (q (urls ! i)))]"
  by (rule nth_equalityI) (auto simp: entriesOf_def nth_enumerate_eq nth_list_update)

text \<open>
  Claim C9. For every list of URLs and however the probe of each position settles,
  \<^verbatim>\<open>testRpcUrls\<close> returns a map (it has no path that throws) whose keys are exactly the
  URLs of the list, each once. The entry of a URL is the outcome of its own probe (of the
  last position that holds the URL): the value of a fulfilled probe, and for a rejected one
  the status network_error with latency \<^verbatim>\<open>Infinity\<close>. Changing how the probe at one
  position settles leaves the entry of every other URL as it is.
\<close>

theorem testRpcUrls_entry_per_url:
  "fst ` set (testRpcUrls probe urls) = set urls
   \<and> distinct (map fst (testRpcUrls probe urls))
   \<and> (\<forall>i<length urls. (\<forall>j<length urls. i < j \<longrightarrow> urls ! j \<noteq> urls ! i) \<longrightarrow>
        map_of (testRpcUrls probe urls) (urls ! i)
          = Some (settledEntry (urls ! i) (probe i (urls ! i))))
   \<and> (\<forall>i<length urls. \<forall>q u. u \<noteq> urls ! i \<longrightarrow>
        map_of (testRpcUrls (probe(i := q)) urls) u = map_of (testRpcUrls probe urls) u)
   \<and> (\<forall>u reason. url (settledEntry u (Rejected reason)) = u
        \<and> status (settledEntry u (Rejected reason)) = Network_error
        \<and> latency (settledEntry u (Rejected reason)) = Infinity)"
proof (intro conjI allI impI)
  have "map fst (map (\<lambda>(i, u). (u, probe i u)) (enumerate 0 urls)) = urls"
    by (simp add: comp_def case_prod_unfold)
  then have "fst ` set (map (\<lambda>(i, u). (u, probe i u)) (enumerate 0 urls)) = set urls"
    by (metis set_map)
  then show "fst ` set (testRpcUrls probe urls) = set urls"
    by (simp add: testRpcUrls_def keys_collectResults)
  show "distinct (map fst (testRpcUrls probe urls))"
    by (simp add: testRpcUrls_def distinct_collectResults)
next
  fix i assume i: "i < length urls" and last: "\<forall>j<length urls. i < j \<longrightarrow> urls ! j \<noteq> urls ! i"
  have len: "length (entriesOf probe urls) = length urls" by (simp add: entriesOf_def)
  show "map_of (testRpcUrls probe urls) (urls ! i) = Some (settledEntry (urls ! i) (probe i (urls ! i)))"
    using last_wins[of i "entriesOf probe urls" "urls ! i"] i last
    by (simp add: map_of_testRpcUrls len entriesOf_nth)
next
  fix i q u assume i: "i < length urls" and u: "u \<noteq> urls ! i"
  have len: "length (entriesOf probe urls) = length urls" by (simp add: entriesOf_def)
  show "map_of (testRpcUrls (probe(i := q)) urls) u = map_of (testRpcUrls probe urls) u"
    using upd_other[of i "entriesOf probe urls" "urls ! i" _ u] i u
    by (simp add: map_of_testRpcUrls len entriesOf_nth entriesOf_upd)
qed (simp_all add: settledEntry_def)

theorem testRpcUrls_entry_per_url_witness:
  "map_of (testRpcUrls exampleProbe [''https://A'', ''https://B'']) ''https://A''
     = Some \<lparr>url = ''https://A'', latency = Infinity, status = Network_error,
             error = Some (Message ''boom'')\<rparr>
   \<and> map_of (testRpcUrls exampleProbe [''https://A'', ''https://B'']) ''https://B''
     = Some \<lparr>url = ''https://B'', latency = Ms 40, status = Ok, error = None\<rparr>
   \<and> map fst (testRpcUrls exampleProbe [''https://A'', ''https://B''])
     = [''https://A'', ''https://B'']"
  using testRpcUrls_entry_per_url [of exampleProbe "[''https://A'', ''https://B'']"]
  by (simp add: testRpcUrls_def exampleProbe_def settledEntry_def enumerate_eq_zip
        upt_conv_Cons del: upt_Suc)


section \<open>Fallback through the ranked list\<close>

lemma attempts_char:
  "attempts exec l start is lastError tried =
     (let cand = filter (\<lambda>(j, u). u \<noteq> [])
                   (map (\<lambda>i. ((start + i) mod length l, l ! ((start + i) mod length l))) is);
          fails = takeWhile (\<lambda>(j, u). isl (exec j u)) cand;
          rest = dropWhile (\<lambda>(j, u). isl (exec j u)) cand
      in case rest of
           [] \<Rightarrow> (Inl (if fails = [] then lastError
                        else Some (projl (case_prod exec (last fails)))),
                  tried @ fails)
         | (j, u) # _ \<Rightarrow> (Inr (projr (exec j u)), tried @ fails @ [(j, u)]))"
proof (induction "is" arbitrary: lastError tried)
  case Nil
  then show ?case by simp
next
  case (Cons i "is")
  let ?j = "(start + i) mod length l"
  let ?P = "\<lambda>(j, u). isl (exec j u)"
  define cand' where "cand' = filter (\<lambda>(j, u). u \<noteq> [])
      (map (\<lambda>i. ((start + i) mod length l, l ! ((start + i) mod length l))) is)"
  define tw where "tw = takeWhile ?P cand'"
  define dw where "dw = dropWhile ?P cand'"
  have IH: "\<And>lastError tried. attempts exec l start is lastError tried =
      (case dw of
         [] \<Rightarrow> (Inl (if tw = [] then lastError else Some (projl (case_prod exec (last tw)))),
                tried @ tw)
       | (j, u) # _ \<Rightarrow> (Inr (projr (exec j u)), tried @ tw @ [(j, u)]))"
    unfolding dw_def tw_def cand'_def using Cons.IH by (simp add: Let_def)
  show ?case
  proof (cases "l ! ?j = []")
    case True
    then have cand: "filter (\<lambda>(j, u). u \<noteq> [])
        (map (\<lambda>i. ((start + i) mod length l, l ! ((start + i) mod length l))) (i # is))
        = cand'"
      by (simp add: cand'_def)
    have lhs: "attempts exec l start (i # is) lastError tried
        = attempts exec l start is lastError tried"
      using True by (simp add: Let_def)
    show ?thesis
      unfolding Let_def cand lhs IH tw_def dw_def by simp
  next
    case False
    then have cand: "filter (\<lambda>(j, u). u \<noteq> [])
        (map (\<lambda>i. ((start + i) mod length l, l ! ((start + i) mod length l))) (i # is))
        = (?j, l ! ?j) # cand'"
      by (simp add: cand'_def)
    show ?thesis
    proof (cases "exec ?j (l ! ?j)")
      case (Inr v)
      then show ?thesis
        unfolding Let_def cand using False by (simp add: Let_def)
    next
      case (Inl e)
      have lhs: "attempts exec l start (i # is) lastError tried
          = attempts exec l start is (Some e) (tried @ [(?j, l ! ?j)])"
        using False Inl by (simp add: Let_def)
      have t: "takeWhile ?P ((?j, l ! ?j) # cand') = (?j, l ! ?j) # tw"
        and d: "dropWhile ?P ((?j, l ! ?j) # cand') = dw"
        using Inl by (simp_all add: tw_def dw_def)
      show ?thesis
      proof (cases dw)
        case Nil
        show ?thesis
          unfolding Let_def cand t d lhs IH Nil using Inl
          by (cases "tw = []") simp_all
      next
        case (Cons p ps)
        obtain j u where p: "p = (j, u)" by (cases p)
        show ?thesis
          unfolding Let_def cand t d lhs IH Cons p by simp
      qed
    qed
  qed
qed

lemma visit_order_rotate:
  "map (\<lambda>i. ((start + i) mod length l, l ! ((start + i) mod length l))) [0..<length l]
     = rotate start (enumerate 0 l)"
proof (rule nth_equalityI)
  show "length (map (\<lambda>i. ((start + i) mod length l, l ! ((start + i) mod length l))) [0..<length l])
      = length (rotate start (enumerate 0 l))"
    by simp
next
  fix i
  assume "i < length (map (\<lambda>i. ((start + i) mod length l, l ! ((start + i) mod length l))) [0..<length l])"
  then have i: "i < length l" by simp
  then have "0 < length l" by linarith
  then have "(start + i) mod length l < length l" by simp
  with i show "map (\<lambda>i. ((start + i) mod length l, l ! ((start + i) mod length l))) [0..<length l] ! i
      = rotate start (enumerate 0 l) ! i"
    by (simp add: nth_rotate nth_enumerate_eq)
qed

lemma distinct_candidates:
  "distinct (map fst (filter P (rotate start (enumerate 0 l))))"
proof -
  have "distinct (map fst (rotate start (enumerate 0 l)))"
    by (simp add: rotate_map[symmetric])
  then show ?thesis by (rule distinct_map_filter)
qed

text \<open>
  Claim C7. A send over the empty ranked list fails with the no-endpoints error of the chain
  and attempts nothing. Over a non-empty list it attempts the URLs in the order of the list
  rotated to the start index (a falsy URL is skipped), each list position at most once: it
  stops at the first attempt that succeeds and returns its result; when every attempt fails
  it fails with the all-endpoints-failed error of the chain, which carries the error of the
  last attempt.
\<close>

theorem send_fallback_order:
  "(rankedRpcList = [] \<longrightarrow>
      dispatch exec indexMap chainId rankedRpcList
        = (Inl (NoEndpoints chainId), indexMap, \<lparr>startedAt = None, attempted = []\<rparr>))
   \<and> (rankedRpcList \<noteq> [] \<longrightarrow>
        (let startIndex = currentIndexOf indexMap chainId mod length rankedRpcList;
             cand = filter (\<lambda>(j, u). u \<noteq> []) (rotate startIndex (enumerate 0 rankedRpcList));
             fails = takeWhile (\<lambda>(j, u). isl (exec j u)) cand;
             rest = dropWhile (\<lambda>(j, u). isl (exec j u)) cand
         in attempted (snd (snd (dispatch exec indexMap chainId rankedRpcList))) = fails @ take 1 rest
          \<and> distinct (map fst (attempted (snd (snd (dispatch exec indexMap chainId rankedRpcList)))))
          \<and> fst (dispatch exec indexMap chainId rankedRpcList)
              = (case rest of
                   [] \<Rightarrow> Inl (AllEndpointsFailed chainId
                               (if fails = [] then None
                                else Some (projl (case_prod exec (last fails)))))
                 | (j, u) # _ \<Rightarrow> Inr (projr (exec j u)))))"
proof (intro conjI impI)
  assume "rankedRpcList = []"
  then show "dispatch exec indexMap chainId rankedRpcList
        = (Inl (NoEndpoints chainId), indexMap, \<lparr>startedAt = None, attempted = []\<rparr>)"
    by (simp add: dispatch_def)
next
  assume ne: "rankedRpcList \<noteq> []"
  define startIndex where "startIndex = currentIndexOf indexMap chainId mod length rankedRpcList"
  define cand where "cand = filter (\<lambda>(j, u). u \<noteq> []) (rotate startIndex (enumerate 0 rankedRpcList))"
  define fails where "fails = takeWhile (\<lambda>(j, u). isl (exec j u)) cand"
  define rest where "rest = dropWhile (\<lambda>(j, u). isl (exec j u)) cand"
  have att: "attempts exec rankedRpcList startIndex [0..<length rankedRpcList] None []
      = (case rest of
           [] \<Rightarrow> (Inl (if fails = [] then None else Some (projl (case_prod exec (last fails)))),
                  [] @ fails)
         | (j, u) # _ \<Rightarrow> (Inr (projr (exec j u)), [] @ fails @ [(j, u)]))"
    unfolding attempts_char Let_def visit_order_rotate cand_def fails_def rest_def ..
  have both: "attempted (snd (snd (dispatch exec indexMap chainId rankedRpcList))) = fails @ take 1 rest
      \<and> fst (dispatch exec indexMap chainId rankedRpcList)
              = (case rest of
                   [] \<Rightarrow> Inl (AllEndpointsFailed chainId
                               (if fails = [] then None
                                else Some (projl (case_prod exec (last fails)))))
                 | (j, u) # _ \<Rightarrow> Inr (projr (exec j u)))"
  proof (cases rest)
    case Nil
    with att have "attempts exec rankedRpcList startIndex [0..<length rankedRpcList] None []
      = (Inl (if fails = [] then None else Some (projl (case_prod exec (last fails)))), fails)"
      by simp
    with ne Nil show ?thesis
      by (simp add: dispatch_def Let_def startIndex_def)
  next
    case (Cons p ps)
    obtain j u where p: "p = (j, u)" by (cases p)
    with att Cons have "attempts exec rankedRpcList startIndex [0..<length rankedRpcList] None []
      = (Inr (projr (exec j u)), fails @ [(j, u)])"
      by simp
    with ne Cons p show ?thesis
      by (simp add: dispatch_def Let_def startIndex_def)
  qed
  then have tr: "attempted (snd (snd (dispatch exec indexMap chainId rankedRpcList))) = fails @ take 1 rest"
    and out: "fst (dispatch exec indexMap chainId rankedRpcList)
              = (case rest of
                   [] \<Rightarrow> Inl (AllEndpointsFailed chainId
                               (if fails = [] then None
                                else Some (projl (case_prod exec (last fails)))))
                 | (j, u) # _ \<Rightarrow> Inr (projr (exec j u)))"
    by simp_all
  have "cand = (fails @ take 1 rest) @ drop 1 rest"
    by (simp add: fails_def rest_def)
  moreover have "distinct (map fst cand)"
    unfolding cand_def by (rule distinct_candidates)
  ultimately have "distinct (map fst (fails @ take 1 rest))"
    by (metis distinct_append map_append)
  with tr out
  have "attempted (snd (snd (dispatch exec indexMap chainId rankedRpcList))) = fails @ take 1 rest
          \<and> distinct (map fst (attempted (snd (snd (dispatch exec indexMap chainId rankedRpcList)))))
          \<and> fst (dispatch exec indexMap chainId rankedRpcList)
              = (case rest of
                   [] \<Rightarrow> Inl (AllEndpointsFailed chainId
                               (if fails = [] then None
                                else Some (projl (case_prod exec (last fails)))))
                 | (j, u) # _ \<Rightarrow> Inr (projr (exec j u)))"
    by simp
  then show "let startIndex = currentIndexOf indexMap chainId mod length rankedRpcList;
             cand = filter (\<lambda>(j, u). u \<noteq> []) (rotate startIndex (enumerate 0 rankedRpcList));
             fails = takeWhile (\<lambda>(j, u). isl (exec j u)) cand;
             rest = dropWhile (\<lambda>(j, u). isl (exec j u)) cand
         in attempted (snd (snd (dispatch exec indexMap chainId rankedRpcList))) = fails @ take 1 rest
          \<and> distinct (map fst (attempted (snd (snd (dispatch exec indexMap chainId rankedRpcList)))))
          \<and> fst (dispatch exec indexMap chainId rankedRpcList)
              = (case rest of
                   [] \<Rightarrow> Inl (AllEndpointsFailed chainId
                               (if fails = [] then None
                                else Some (projl (case_prod exec (last fails)))))
                 | (j, u) # _ \<Rightarrow> Inr (projr (exec j u)))"
    unfolding Let_def rest_def fails_def cand_def startIndex_def .
qed

theorem send_fallback_order_witness:
  "dispatch exampleExec Map.empty 100 []
     = (Inl (NoEndpoints 100), Map.empty, \<lparr>startedAt = None, attempted = []\<rparr>)
   \<and> fst (dispatch exampleExec Map.empty 100 [''https://A'', ''https://B''])
     = Inr (Some (JStr ''0x64''))
   \<and> attempted (snd (snd (dispatch exampleExec Map.empty 100 [''https://A'', ''https://B''])))
     = [(0, ''https://A''), (1, ''https://B'')]
   \<and> fst (dispatch exampleExec Map.empty 100 [''https://A''])
     = Inl (AllEndpointsFailed 100 (Some (HttpError 500 ''Internal Server Error'')))"
  using send_fallback_order [of "[]" exampleExec Map.empty 100]
    send_fallback_order [of "[''https://A'', ''https://B'']" exampleExec Map.empty 100]
    send_fallback_order [of "[''https://A'']" exampleExec Map.empty 100]
  by (simp add: dispatch_def exampleExec_def currentIndexOf_def Let_def
        upt_conv_Cons del: upt_Suc)

section \<open>The selector and the cache\<close>

lemma loadCache_idem: "loadCache (loadCache cm) = loadCache cm"
  by (simp add: loadCache_def)

lemma loadCache_fields:
  "disabled (loadCache cm) = disabled cm"
  "cacheTtlMs (loadCache cm) = cacheTtlMs cm"
  "kvAvailable (loadCache cm) = kvAvailable cm"
  "kvStored (loadCache cm) = kvStored cm"
  "\<not> disabled cm \<Longrightarrow> cacheLoaded (loadCache cm)"
  "disabled cm \<Longrightarrow> loadCache cm = cm"
  by (simp_all add: loadCache_def)

lemma getLatencyMap_eq:
  "getLatencyMap cm c = (map_option latencyMap (cache (loadCache cm) c), loadCache cm)"
  by (simp add: getLatencyMap_def getRawChainCache_def Let_def split: option.splits)

lemma getChainCache_eq:
  "getChainCache cm c now =
     (if disabled cm then (None, cm)
      else (case cache (loadCache cm) c of
              None \<Rightarrow> None
            | Some e \<Rightarrow> if now - lastTested e < cacheTtlMs cm then Some e else None,
            loadCache cm))"
  by (simp add: getChainCache_def getRawChainCache_def Let_def loadCache_fields split: option.splits)

lemma getFastestRpc_eq:
  "getFastestRpc cm c now =
     (if disabled cm then None
      else (case cache (loadCache cm) c of
              None \<Rightarrow> None
            | Some e \<Rightarrow> if now - lastTested e < cacheTtlMs cm then fastestRpc e else None),
      loadCache cm)"
  by (cases "cache (loadCache cm) c") (simp_all add: getFastestRpc_def getChainCache_eq loadCache_fields)

lemma getFastestRpc_loaded:
  "getFastestRpc (loadCache cm) c now = getFastestRpc cm c now"
  by (cases "cache (loadCache cm) c") (simp_all add: getFastestRpc_eq loadCache_idem loadCache_fields)

lemma needsProbe_eq:
  "needsProbe env st c =
     cacheInvalid (map_option latencyMap (cache (loadCache (cacheManager st)) c))
       (fst (getFastestRpc (cacheManager st) c (readTime env)))"
  by (simp add: needsProbe_def getLatencyMap_eq getFastestRpc_loaded split: prod.splits)

lemma getRankedRpcList_eq:
  "getRankedRpcList env st c =
     (let cm2 = loadCache (cacheManager st) in
      if needsProbe env st c then
        (case ongoingLatencyTests st c of
           Some awaited \<Rightarrow> (rankResults (Some awaited), st\<lparr>cacheManager := cm2\<rparr>)
         | None \<Rightarrow>
             if getRpcUrls (dataSource st) c = [] then ([], st\<lparr>cacheManager := cm2\<rparr>)
             else
               (rankResults (Some (latencyTest env st (getRpcUrls (dataSource st) c))),
                st\<lparr>cacheManager :=
                     updateChainCache cm2 c (latencyTest env st (getRpcUrls (dataSource st) c))
                       (map_option url
                          (findFastestInMap (Some (latencyTest env st (getRpcUrls (dataSource st) c)))))
                       (writeTime env),
                   ongoingLatencyTests := (ongoingLatencyTests st)(c := None),
                   probeRuns := probeRuns st @ [getRpcUrls (dataSource st) c]\<rparr>))
      else (rankResults (map_option latencyMap (cache cm2 c)), st\<lparr>cacheManager := cm2\<rparr>))"
proof -
  have b: "getFastestRpc (loadCache (cacheManager st)) c (readTime env)
      = (fst (getFastestRpc (cacheManager st) c (readTime env)), loadCache (cacheManager st))"
    unfolding getFastestRpc_loaded by (simp add: getFastestRpc_eq)
  show ?thesis
    unfolding getRankedRpcList_def needsProbe_eq getLatencyMap_eq
    by (simp add: Let_def b split: option.splits)
qed

lemma disabled_needsProbe: "disabled (cacheManager st) \<Longrightarrow> needsProbe env st c"
  by (simp add: needsProbe_eq getFastestRpc_eq cacheInvalid_def split: option.splits)

lemma null_fastest_needsProbe:
  "cache (loadCache (cacheManager st)) c = Some e \<Longrightarrow> fastestRpc e = None \<Longrightarrow> needsProbe env st c"
  by (simp add: needsProbe_eq getFastestRpc_eq cacheInvalid_def split: option.splits)

lemma updateChainCache_enabled:
  "\<not> disabled cm \<Longrightarrow>
   cache (updateChainCache cm c m f now) = (cache (loadCache cm))(c \<mapsto> \<lparr>fastestRpc = f, latencyMap = m, lastTested = now\<rparr>)
   \<and> cacheLoaded (updateChainCache cm c m f now)
   \<and> \<not> disabled (updateChainCache cm c m f now)
   \<and> cacheTtlMs (updateChainCache cm c m f now) = cacheTtlMs cm
   \<and> (kvAvailable cm \<longrightarrow> kvStored (updateChainCache cm c m f now) = Some (cache (updateChainCache cm c m f now)))"
  by (simp add: updateChainCache_def saveCache_def Let_def loadCache_fields)

lemma loaded_loadCache: "cacheLoaded cm \<Longrightarrow> loadCache cm = cm"
  by (simp add: loadCache_def)

lemma no_valid_results:
  assumes "\<forall>r \<in> snd ` set m. status r \<notin> set ACCEPTABLE_STATUSES"
  shows "rankResults (Some m) = []" and "findFastestInMap (Some m) = None"
proof -
  from assms have v: "validResults m = []"
    by (auto simp: validResults_def filter_empty_conv)
  then show "rankResults (Some m) = []"
    by (simp add: rankResults_def rankedResults_def)
  from v bestOfStatuses_accept[of m] show "findFastestInMap (Some m) = None"
    by (simp add: findFastestInMap_def)
qed

lemma getRankedRpcList_probes:
  assumes "needsProbe env st c" "ongoingLatencyTests st c = None" "getRpcUrls (dataSource st) c \<noteq> []"
  shows "getRankedRpcList env st c =
           (rankResults (Some (latencyTest env st (getRpcUrls (dataSource st) c))),
            st\<lparr>cacheManager :=
                 updateChainCache (loadCache (cacheManager st)) c
                   (latencyTest env st (getRpcUrls (dataSource st) c))
                   (map_option url
                      (findFastestInMap (Some (latencyTest env st (getRpcUrls (dataSource st) c)))))
                   (writeTime env),
               ongoingLatencyTests := (ongoingLatencyTests st)(c := None),
               probeRuns := probeRuns st @ [getRpcUrls (dataSource st) c]\<rparr>)"
  using assms by (simp add: getRankedRpcList_eq Let_def)

lemma latencyTest_state:
  "permit2BytecodePrefix st' = permit2BytecodePrefix st \<Longrightarrow> latencyTest env st' urls = latencyTest env st urls"
  by (simp add: latencyTest_def)

lemma failed_probe_run:
  assumes en: "\<not> disabled (cacheManager st)"
    and og: "ongoingLatencyTests st c = None"
    and wl: "getRpcUrls (dataSource st) c \<noteq> []"
    and np: "needsProbe env st c"
    and fail: "\<forall>r \<in> snd ` set (latencyTest env st (getRpcUrls (dataSource st) c)).
                 status r \<notin> set ACCEPTABLE_STATUSES"
  shows "fst (getRankedRpcList env st c) = []
       \<and> cache (cacheManager (snd (getRankedRpcList env st c))) c
           = Some \<lparr>fastestRpc = None,
                   latencyMap = latencyTest env st (getRpcUrls (dataSource st) c),
                   lastTested = writeTime env\<rparr>
       \<and> (kvAvailable (cacheManager st) \<longrightarrow>
            kvStored (cacheManager (snd (getRankedRpcList env st c)))
              = Some (cache (cacheManager (snd (getRankedRpcList env st c)))))
       \<and> cacheTtlMs (cacheManager (snd (getRankedRpcList env st c))) = cacheTtlMs (cacheManager st)
       \<and> probeRuns (snd (getRankedRpcList env st c))
           = probeRuns st @ [getRpcUrls (dataSource st) c]
       \<and> (\<forall>envB. needsProbe envB (snd (getRankedRpcList env st c)) c
             \<and> probeRuns (snd (getRankedRpcList envB (snd (getRankedRpcList env st c)) c))
                 = probeRuns st @ [getRpcUrls (dataSource st) c, getRpcUrls (dataSource st) c]
             \<and> fst (getRankedRpcList envB (snd (getRankedRpcList env st c)) c)
                 = rankResults (Some (latencyTest envB st (getRpcUrls (dataSource st) c))))"
proof -
  define urls where "urls = getRpcUrls (dataSource st) c"
  define tested where "tested = latencyTest env st urls"
  define cm1 where "cm1 = updateChainCache (loadCache (cacheManager st)) c tested None (writeTime env)"
  define st1 where "st1 = st\<lparr>cacheManager := cm1,
      ongoingLatencyTests := (ongoingLatencyTests st)(c := None),
      probeRuns := probeRuns st @ [urls]\<rparr>"
  have nv: "rankResults (Some tested) = []" "findFastestInMap (Some tested) = None"
    using no_valid_results[of tested] fail by (simp_all add: tested_def urls_def)
  have first: "getRankedRpcList env st c = ([], st1)"
    using getRankedRpcList_probes[OF np og wl] nv
    by (simp add: st1_def cm1_def tested_def urls_def)
  have en': "\<not> disabled (loadCache (cacheManager st))"
    using en by (simp add: loadCache_fields)
  note upd = updateChainCache_enabled[OF en', of c tested None "writeTime env"]
  have c1: "cache cm1 c = Some \<lparr>fastestRpc = None, latencyMap = tested, lastTested = writeTime env\<rparr>"
    using upd by (simp add: cm1_def)
  have loaded: "loadCache cm1 = cm1"
    using upd by (simp add: cm1_def loaded_loadCache)
  have kv: "kvAvailable (cacheManager st) \<longrightarrow> kvStored cm1 = Some (cache cm1)"
    using upd by (simp add: cm1_def loadCache_fields)
  have second: "needsProbe envB st1 c
       \<and> probeRuns (snd (getRankedRpcList envB st1 c)) = probeRuns st @ [urls, urls]
       \<and> fst (getRankedRpcList envB st1 c) = rankResults (Some (latencyTest envB st urls))" for envB
  proof -
    have np2: "needsProbe envB st1 c"
      by (rule null_fastest_needsProbe[where e="\<lparr>fastestRpc = None, latencyMap = tested, lastTested = writeTime env\<rparr>"])
        (simp_all add: st1_def loaded c1)
    have og2: "ongoingLatencyTests st1 c = None" by (simp add: st1_def)
    have wl2: "getRpcUrls (dataSource st1) c \<noteq> []" using wl by (simp add: st1_def)
    have ds: "getRpcUrls (dataSource st1) c = urls" by (simp add: st1_def urls_def)
    have lt: "latencyTest envB st1 urls = latencyTest envB st urls"
      by (rule latencyTest_state) (simp add: st1_def)
    show ?thesis
      using np2 getRankedRpcList_probes[OF np2 og2 wl2]
      by (simp add: ds lt) (simp add: st1_def)
  qed
  have ttl: "cacheTtlMs cm1 = cacheTtlMs (cacheManager st)"
    using upd by (simp add: cm1_def loadCache_fields)
  show ?thesis
    unfolding first using c1 kv ttl second
    by (simp add: st1_def tested_def urls_def)
qed


lemma exampleUrls: "getRpcUrls (dataSource exampleState) 100 = [''https://A'', ''https://B'', ''https://C'']"
  by (simp add: exampleState_def)

lemma exampleTimeoutTest:
  "latencyTest (exampleTimeoutEnv t) st [''https://A'', ''https://B'', ''https://C''] = exampleTimeoutMap"
  by (simp add: latencyTest_def testRpcUrls_def runProbe_def testSingleRpc_def promiseAll_def
      makeRpcCall_def exampleTimeoutEnv_def exampleAbort_def settledEntry_def exampleTimeoutMap_def
      enumerate_eq_zip upt_conv_Cons del: upt_Suc)

lemma exampleNeedsProbe: "needsProbe env exampleState 100"
  by (simp add: needsProbe_eq exampleState_def exampleManager_def loadCache_def cacheInvalid_def)

lemma exampleTimeoutFails:
  "\<forall>r \<in> snd ` set (latencyTest (exampleTimeoutEnv t) exampleState
                       (getRpcUrls (dataSource exampleState) 100)).
     status r \<notin> set ACCEPTABLE_STATUSES"
  unfolding exampleUrls exampleTimeoutTest
  by (simp add: exampleTimeoutMap_def ACCEPTABLE_STATUSES_def)

lemma exampleState_enabled:
  "\<not> disabled (cacheManager exampleState)" "ongoingLatencyTests exampleState 100 = None"
  "getRpcUrls (dataSource exampleState) 100 \<noteq> []"
  by (simp_all add: exampleState_def exampleManager_def)

text \<open>
  Claim C1, as the code has it. When the cache is enabled, no probe of the chain is in
  flight, the cache has no valid entry for the chain and every whitelisted URL of the chain
  probes as a status that is not acceptable, \<^verbatim>\<open>getRankedRpcList\<close> returns the empty list
  and writes the cache entry of the chain with the fastest URL \<^verbatim>\<open>null\<close> (and saves it to
  the store when the store is available). That entry is not valid for any later call,
  whatever the time: the next call for the chain runs the prober again on the whitelist.
\<close>

theorem failed_probe_cached_null_and_retested:
  assumes en: "\<not> disabled (cacheManager st)"
    and og: "ongoingLatencyTests st c = None"
    and wl: "getRpcUrls (dataSource st) c \<noteq> []"
    and np: "needsProbe env st c"
    and fail: "\<forall>r \<in> snd ` set (latencyTest env st (getRpcUrls (dataSource st) c)).
                 status r \<notin> set ACCEPTABLE_STATUSES"
  shows "fst (getRankedRpcList env st c) = []
       \<and> cache (cacheManager (snd (getRankedRpcList env st c))) c
           = Some \<lparr>fastestRpc = None,
                   latencyMap = latencyTest env st (getRpcUrls (dataSource st) c),
                   lastTested = writeTime env\<rparr>
       \<and> (kvAvailable (cacheManager st) \<longrightarrow>
            kvStored (cacheManager (snd (getRankedRpcList env st c)))
              = Some (cache (cacheManager (snd (getRankedRpcList env st c)))))
       \<and> cacheTtlMs (cacheManager (snd (getRankedRpcList env st c))) = cacheTtlMs (cacheManager st)
       \<and> probeRuns (snd (getRankedRpcList env st c))
           = probeRuns st @ [getRpcUrls (dataSource st) c]
       \<and> (\<forall>envB. needsProbe envB (snd (getRankedRpcList env st c)) c
             \<and> probeRuns (snd (getRankedRpcList envB (snd (getRankedRpcList env st c)) c))
                 = probeRuns st @ [getRpcUrls (dataSource st) c, getRpcUrls (dataSource st) c]
             \<and> fst (getRankedRpcList envB (snd (getRankedRpcList env st c)) c)
                 = rankResults (Some (latencyTest envB st (getRpcUrls (dataSource st) c))))"
  by (rule failed_probe_run[OF assms])

theorem failed_probe_cached_null_and_retested_witness:
  "fst (getRankedRpcList (exampleTimeoutEnv 0) exampleState 100) = []
   \<and> map_option fastestRpc
       (cache (cacheManager (snd (getRankedRpcList (exampleTimeoutEnv 0) exampleState 100))) 100)
       = Some None
   \<and> needsProbe (exampleTimeoutEnv 6000) (snd (getRankedRpcList (exampleTimeoutEnv 0) exampleState 100)) 100"
  using failed_probe_cached_null_and_retested [OF exampleState_enabled exampleNeedsProbe exampleTimeoutFails, of 0]
  by (simp add: exampleUrls)


text \<open>
  The claim as the specification states it fails on a chain with three whitelisted URLs that
  all time out: the entry is written at time 5000 with no fastest URL, and a second call at
  time 6000, within the hour of the TTL, runs the prober again.
\<close>

theorem null_fastest_entry_not_reused_counterexample:
  "fst (getRankedRpcList (exampleTimeoutEnv 0) exampleState 100) = []
   \<and> map_option fastestRpc
       (cache (cacheManager (snd (getRankedRpcList (exampleTimeoutEnv 0) exampleState 100))) 100)
       = Some None
   \<and> map_option lastTested
       (cache (cacheManager (snd (getRankedRpcList (exampleTimeoutEnv 0) exampleState 100))) 100)
       = Some 5000
   \<and> cacheTtlMs (cacheManager (snd (getRankedRpcList (exampleTimeoutEnv 0) exampleState 100)))
       = 3600000
   \<and> readTime (exampleTimeoutEnv 6000) = 6000
   \<and> probeRuns (snd (getRankedRpcList (exampleTimeoutEnv 0) exampleState 100))
       = [[''https://A'', ''https://B'', ''https://C'']]
   \<and> probeRuns (snd (getRankedRpcList (exampleTimeoutEnv 6000)
                       (snd (getRankedRpcList (exampleTimeoutEnv 0) exampleState 100)) 100))
       = [[''https://A'', ''https://B'', ''https://C''],
          [''https://A'', ''https://B'', ''https://C'']]"
  using failed_probe_run[OF exampleState_enabled exampleNeedsProbe exampleTimeoutFails, of 0]
  by (simp add: exampleUrls) (simp add: exampleState_def exampleManager_def exampleTimeoutEnv_def)


section \<open>The cache disabled\<close>

lemma send_state:
  "fst (snd (send env st c)) = (snd (getRankedRpcList env st c))
      \<lparr>rpcIndexMap := fst (snd (dispatch
          (\<lambda>j u. executeRpcCall (requestTimeoutMs (snd (getRankedRpcList env st c))) (requestNet env j u))
          (rpcIndexMap (snd (getRankedRpcList env st c))) c (fst (getRankedRpcList env st c))))\<rparr>"
  by (simp add: send_def split: prod.splits)

lemma disabled_probe_run:
  assumes dis: "disabled (cacheManager st)"
    and og: "ongoingLatencyTests st c = None"
    and wl: "getRpcUrls (dataSource st) c \<noteq> []"
  shows "getRankedRpcList env st c =
           (rankResults (Some (latencyTest env st (getRpcUrls (dataSource st) c))),
            st\<lparr>probeRuns := probeRuns st @ [getRpcUrls (dataSource st) c]\<rparr>)"
proof -
  have "updateChainCache (cacheManager st) c m f now = cacheManager st" for m f now
    using dis by (simp add: updateChainCache_def)
  moreover have "(ongoingLatencyTests st)(c := None) = ongoingLatencyTests st"
    using og by (simp add: fun_upd_idem)
  ultimately show ?thesis
    using getRankedRpcList_probes[OF disabled_needsProbe[OF dis] og wl] dis
    by (simp add: loadCache_fields)
qed

text \<open>
  Claim C8. With the cache disabled, \<^verbatim>\<open>getChainCache\<close> returns \<^verbatim>\<open>null\<close> and
  \<^verbatim>\<open>updateChainCache\<close> changes nothing, and the selector still probes: for a chain with
  whitelisted URLs and no probe in flight, each of two sends one after the other runs the
  prober on the whitelist, and the ranking of each is that of its own probe results.
\<close>

theorem disabled_cache_probes_every_send:
  assumes dis: "disabled (cacheManager st)"
    and og: "ongoingLatencyTests st c = None"
    and wl: "getRpcUrls (dataSource st) c \<noteq> []"
  shows "getChainCache (cacheManager st) c now = (None, cacheManager st)
       \<and> updateChainCache (cacheManager st) c newMap newFastest now = cacheManager st
       \<and> probeRuns (fst (snd (send envA st c))) = probeRuns st @ [getRpcUrls (dataSource st) c]
       \<and> fst (getRankedRpcList envA st c)
           = rankResults (Some (latencyTest envA st (getRpcUrls (dataSource st) c)))
       \<and> probeRuns (fst (snd (send envB (fst (snd (send envA st c))) c)))
           = probeRuns st @ [getRpcUrls (dataSource st) c, getRpcUrls (dataSource st) c]
       \<and> fst (getRankedRpcList envB (fst (snd (send envA st c))) c)
           = rankResults (Some (latencyTest envB st (getRpcUrls (dataSource st) c)))
       \<and> cacheManager (fst (snd (send envB (fst (snd (send envA st c))) c))) = cacheManager st"
proof -
  define urls where "urls = getRpcUrls (dataSource st) c"
  define st1 where "st1 = fst (snd (send envA st c))"
  have r1: "getRankedRpcList envA st c
      = (rankResults (Some (latencyTest envA st urls)), st\<lparr>probeRuns := probeRuns st @ [urls]\<rparr>)"
    unfolding urls_def by (rule disabled_probe_run[OF dis og wl])
  have s1: "cacheManager st1 = cacheManager st" "ongoingLatencyTests st1 = ongoingLatencyTests st"
    "dataSource st1 = dataSource st" "probeRuns st1 = probeRuns st @ [urls]"
    "permit2BytecodePrefix st1 = permit2BytecodePrefix st"
    unfolding st1_def send_state r1 by simp_all
  have dis1: "disabled (cacheManager st1)" and og1: "ongoingLatencyTests st1 c = None"
    and wl1: "getRpcUrls (dataSource st1) c \<noteq> []"
    using dis og wl by (simp_all add: s1)
  have r2: "getRankedRpcList envB st1 c
      = (rankResults (Some (latencyTest envB st urls)), st1\<lparr>probeRuns := probeRuns st1 @ [urls]\<rparr>)"
    using disabled_probe_run[OF dis1 og1 wl1, of envB] latencyTest_state[OF s1(5), of envB urls]
    by (simp add: s1 urls_def)
  have s2: "probeRuns (fst (snd (send envB st1 c))) = probeRuns st @ [urls, urls]"
    "cacheManager (fst (snd (send envB st1 c))) = cacheManager st"
    unfolding send_state r2 by (simp_all add: s1)
  have a: "getChainCache (cacheManager st) c now = (None, cacheManager st)"
    using dis by (simp add: getChainCache_def)
  have b: "updateChainCache (cacheManager st) c newMap newFastest now = cacheManager st"
    using dis by (simp add: updateChainCache_def)
  show ?thesis
    using a b r1 r2 s1(4) s2 unfolding st1_def urls_def by simp
qed


theorem disabled_cache_probes_every_send_witness:
  "disabled (cacheManager exampleDisabledState)
   \<and> probeRuns (fst (snd (send (exampleTimeoutEnv 6000)
        (fst (snd (send (exampleTimeoutEnv 0) exampleDisabledState 100))) 100)))
       = [[''https://A'', ''https://B'', ''https://C''],
          [''https://A'', ''https://B'', ''https://C'']]"
  using disabled_cache_probes_every_send [where st=exampleDisabledState and c=100 and envA="exampleTimeoutEnv 0"
      and envB="exampleTimeoutEnv 6000" and now=0 and newMap="[]" and newFastest=None]
  by (simp add: exampleDisabledState_def exampleState_def exampleManager_def)


section \<open>A valid cache entry is served as it is\<close>

text \<open>
  Claim C10. When the cache is enabled and the (loaded) entry of the chain is fresh, its
  fastest URL is a non-empty string and the entry's map gives that URL an acceptable status,
  \<^verbatim>\<open>getRankedRpcList\<close> returns the ranking of the entry's map whatever the whitelist
  is, and runs no probe; the URL of that result is in the list whether or not the whitelist
  has it. The witness loads an entry from the store whose URL the whitelist lacks.
\<close>

theorem valid_cache_served_without_whitelist:
  assumes en: "\<not> disabled (cacheManager st)"
    and entry: "cache (loadCache (cacheManager st)) c = Some e"
    and fresh: "readTime env - lastTested e < cacheTtlMs (cacheManager st)"
    and fastest: "fastestRpc e = Some f" "f \<noteq> []"
    and inMap: "map_of (latencyMap e) f = Some r"
    and acc: "status r \<in> set ACCEPTABLE_STATUSES"
  shows "(\<forall>ds. getRankedRpcList env (st\<lparr>dataSource := ds\<rparr>) c
             = (rankResults (Some (latencyMap e)),
                st\<lparr>dataSource := ds, cacheManager := loadCache (cacheManager st)\<rparr>))
       \<and> url r \<in> set (rankResults (Some (latencyMap e)))"
proof
  show "\<forall>ds. getRankedRpcList env (st\<lparr>dataSource := ds\<rparr>) c
             = (rankResults (Some (latencyMap e)),
                st\<lparr>dataSource := ds, cacheManager := loadCache (cacheManager st)\<rparr>)"
  proof
    fix ds
    have "\<not> needsProbe env (st\<lparr>dataSource := ds\<rparr>) c"
      using assms by (simp add: needsProbe_eq getFastestRpc_eq cacheInvalid_def)
    then show "getRankedRpcList env (st\<lparr>dataSource := ds\<rparr>) c
             = (rankResults (Some (latencyMap e)),
                st\<lparr>dataSource := ds, cacheManager := loadCache (cacheManager st)\<rparr>)"
      using entry by (simp add: getRankedRpcList_eq Let_def)
  qed
next
  from inMap have "r \<in> snd ` set (latencyMap e)"
    by (metis map_of_SomeD image_eqI snd_conv)
  with acc have "r \<in> set (validResults (latencyMap e))"
    by (simp add: validResults_def)
  then have "r \<in> set (rankedResults (latencyMap e))"
    by (simp add: set_rankedResults)
  then show "url r \<in> set (rankResults (Some (latencyMap e)))"
    by (simp add: rankResults_def)
qed

theorem valid_cache_served_without_whitelist_witness:
  "fst (getRankedRpcList (exampleTimeoutEnv 1000) examplePersistedState 100) = [''https://X'']
   \<and> ''https://X'' \<notin> set (getRpcUrls (dataSource examplePersistedState) 100)
   \<and> probeRuns (snd (getRankedRpcList (exampleTimeoutEnv 1000) examplePersistedState 100)) = []"
  using valid_cache_served_without_whitelist [where st=examplePersistedState and c=100
      and e="\<lparr>fastestRpc = Some ''https://X'',
        latencyMap = [(''https://X'', \<lparr>url = ''https://X'', latency = Ms 20, status = Ok, error = None\<rparr>)],
        lastTested = 0\<rparr>"
      and env="exampleTimeoutEnv 1000" and f="''https://X''"
      and r="\<lparr>url = ''https://X'', latency = Ms 20, status = Ok, error = None\<rparr>"]
  by (simp add: examplePersistedState_def exampleState_def exampleManager_def loadCache_def
        exampleTimeoutEnv_def ACCEPTABLE_STATUSES_def rankResults_def rankedResults_def
        validResults_def)

end
